theory Spec2Isabelle
  imports Main
begin

section \<open>Databinding expression scanner (src/polymer/expression-scanner.ts)\<close>

text \<open>
  JavaScript strings are modelled as \<open>string\<close> (a list of characters); an index into a
  string is a \<open>nat\<close>, and the result \<open>-1\<close> of \<open>indexOf\<close> is \<open>None\<close>.
\<close>

subsection \<open>String primitives used by the scanner\<close>

text \<open>\<open>str.startsWith(pat)\<close>.\<close>

definition startsWith :: "string \<Rightarrow> string \<Rightarrow> bool" where
  "startsWith str pat = (take (length pat) str = pat)"

text \<open>
  \<open>find_sub pat s i\<close> searches the suffix \<open>s\<close> (which starts at index \<open>i\<close> of the
  whole string) for the first occurrence of \<open>pat\<close>.
\<close>

fun find_sub :: "string \<Rightarrow> string \<Rightarrow> nat \<Rightarrow> nat option" where
  "find_sub pat [] i = (if pat = [] then Some i else None)"
| "find_sub pat (c # cs) i =
     (if startsWith (c # cs) pat then Some i else find_sub pat cs (Suc i))"

text \<open>\<open>str.indexOf(pat, pos)\<close>: the first index \<open>\<ge> pos\<close> at which \<open>pat\<close> occurs.\<close>

definition indexOf :: "string \<Rightarrow> string \<Rightarrow> nat \<Rightarrow> nat option" where
  "indexOf str pat pos = find_sub pat (drop pos str) pos"

text \<open>\<open>str.slice(a, b)\<close> for \<open>0 \<le> a\<close>, \<open>0 \<le> b\<close>.\<close>

definition slice :: "string \<Rightarrow> nat \<Rightarrow> nat \<Rightarrow> string" where
  "slice str a b = take (b - a) (drop a str)"

text \<open>
  The global regular expression \<open>/{{|\[\[/g\<close>: \<open>find_opener s i\<close> scans the suffix
  \<open>s\<close> starting at index \<open>i\<close> and returns the index and text of the leftmost match.
\<close>

fun find_opener :: "string \<Rightarrow> nat \<Rightarrow> (nat \<times> string) option" where
  "find_opener [] i = None"
| "find_opener (c # cs) i =
     (if startsWith (c # cs) ''{{'' then Some (i, ''{{'')
      else if startsWith (c # cs) ''[['' then Some (i, ''[['')
      else find_opener cs (Suc i))"

text \<open>\<open>openers.exec(str)\<close> with \<open>openers.lastIndex = lastIndex\<close>.\<close>

definition exec_openers :: "string \<Rightarrow> nat \<Rightarrow> (nat \<times> string) option" where
  "exec_openers str lastIndex = find_opener (drop lastIndex str) lastIndex"

subsection \<open>findDatabindingInString\<close>

text \<open>
  The interface \<open>RawDatabinding\<close>. Its fields \<open>expressionText\<close> and \<open>direction\<close> carry
  the prefix \<open>raw\<close> here, because \<open>ScannedDatabindingExpression\<close> below has fields of the
  same names.
\<close>

record RawDatabinding =
  rawExpressionText :: string
  startIndex :: nat
  endIndex :: nat
  rawDirection :: char

lemma find_sub_bounds:
  "find_sub pat s i = Some e \<Longrightarrow> i \<le> e \<and> e + length pat \<le> i + length s"
proof (induction s arbitrary: i)
  case Nil
  then show ?case by (simp split: if_splits)
next
  case (Cons c cs)
  show ?case
  proof (cases "startsWith (c # cs) pat")
    case True
    with Cons.prems have "e = i" by simp
    moreover from True have "length (take (length pat) (c # cs)) = length pat"
      unfolding startsWith_def by simp
    then have "length pat \<le> length (c # cs)" by simp
    ultimately show ?thesis by simp
  next
    case False
    with Cons.prems have "find_sub pat cs (Suc i) = Some e" by simp
    from Cons.IH[OF this] show ?thesis by simp
  qed
qed

lemma indexOf_bounds:
  "indexOf str pat pos = Some e \<Longrightarrow> pos \<le> e \<and> (pat \<noteq> [] \<longrightarrow> e + length pat \<le> length str)"
proof -
  assume a: "indexOf str pat pos = Some e"
  then have b: "pos \<le> e \<and> e + length pat \<le> pos + length (drop pos str)"
    unfolding indexOf_def by (rule find_sub_bounds)
  show ?thesis
  proof (cases "pos \<le> length str")
    case True
    with b show ?thesis by simp
  next
    case False
    then have "drop pos str = []" by simp
    with a have "pat = []" unfolding indexOf_def by (simp split: if_splits)
    with b show ?thesis by simp
  qed
qed

lemma find_opener_bounds:
  "find_opener s i = Some (idx, m) \<Longrightarrow> i \<le> idx \<and> idx + 2 \<le> i + length s"
proof (induction s arbitrary: i)
  case Nil
  then show ?case by simp
next
  case (Cons c cs)
  show ?case
  proof (cases "startsWith (c # cs) ''{{'' \<or> startsWith (c # cs) ''[[''")
    case True
    with Cons.prems have "idx = i" by (auto split: if_splits)
    moreover from True have "2 \<le> length (c # cs)"
      unfolding startsWith_def by (cases cs) auto
    ultimately show ?thesis by simp
  next
    case False
    with Cons.prems have "find_opener cs (Suc i) = Some (idx, m)" by simp
    from Cons.IH[OF this] show ?thesis by simp
  qed
qed

lemma exec_openers_bounds:
  "exec_openers str lastIndex = Some (idx, m) \<Longrightarrow> lastIndex \<le> idx \<and> idx + 2 \<le> length str"
proof -
  assume a: "exec_openers str lastIndex = Some (idx, m)"
  then have b: "lastIndex \<le> idx \<and> idx + 2 \<le> lastIndex + length (drop lastIndex str)"
    unfolding exec_openers_def by (rule find_opener_bounds)
  show ?thesis
  proof (cases "lastIndex \<le> length str")
    case True
    with b show ?thesis by simp
  next
    case False
    then have "drop lastIndex str = []" by simp
    with a show ?thesis unfolding exec_openers_def by simp
  qed
qed

text \<open>
  The \<open>while (match = openers.exec(str))\<close> loop, with \<open>lastIndex\<close> the regular
  expression's \<open>lastIndex\<close>. \<open>break\<close> ends the loop with the expressions found so far.
\<close>

function findDatabindingFrom :: "string \<Rightarrow> nat \<Rightarrow> RawDatabinding list" where
  "findDatabindingFrom str lastIndex =
     (case exec_openers str lastIndex of
        None \<Rightarrow> []
      | Some (index, matchedOpeners) \<Rightarrow>
          let start = index + 2;
              dir = (if matchedOpeners = ''{{'' then CHR ''{'' else CHR ''['');
              closers = (if matchedOpeners = ''{{'' then ''}}'' else '']]'')
          in (case indexOf str closers start of
                None \<Rightarrow> []
              | Some fin \<Rightarrow>
                  \<lparr>rawExpressionText = slice str start fin,
                   startIndex = start, endIndex = fin, rawDirection = dir\<rparr>
                  # findDatabindingFrom str (fin + 2)))"
  by pat_completeness auto
termination
proof (relation "measure (\<lambda>(str, lastIndex). length str - lastIndex)", goal_cases)
  case 1
  show ?case by simp
next
  case (2 str lastIndex x2 index matchedOpeners start dir closers fin)
  from 2(1,2) have a: "lastIndex \<le> index \<and> index + 2 \<le> length str"
    using exec_openers_bounds by metis
  from 2(6) have "start \<le> fin \<and> fin + length closers \<le> length str"
    using indexOf_bounds[of str closers start fin] 2(5) by auto
  with a 2(3) 2(5) show ?case by (auto split: if_splits)
qed

declare findDatabindingFrom.simps [simp del]

definition findDatabindingInString :: "string \<Rightarrow> RawDatabinding list" where
  "findDatabindingInString str = findDatabindingFrom str 0"

subsection \<open>Source ranges\<close>

record Position =
  line :: int
  column :: int

record SourceRange =
  range_file :: string
  range_start :: Position
  range_end :: Position

record LocationOffset =
  offset_line :: int
  offset_col :: int

text \<open>
  \<open>findNewlineIndexes\<close>: the loop variable \<open>index\<close> is \<open>None\<close> for \<open>-1\<close>.
\<close>

function findNewlineLoop :: "string \<Rightarrow> nat option \<Rightarrow> nat list" where
  "findNewlineLoop str index =
     (case index of
        None \<Rightarrow> []
      | Some i \<Rightarrow> i # findNewlineLoop str (indexOf str [CHR 0x0A] (i + 1)))"
  by pat_completeness auto
termination
proof (relation "measure (\<lambda>(str, index). case index of None \<Rightarrow> 0 | Some i \<Rightarrow> Suc (length str - i))",
    goal_cases)
  case 1
  show ?case by simp
next
  case (2 str index i)
  show ?case
  proof (cases "indexOf str [CHR 0x0A] (i + 1)")
    case None
    then show ?thesis using 2 by simp
  next
    case (Some j)
    from indexOf_bounds[OF Some] have "i + 1 \<le> j \<and> j + 1 \<le> length str" by simp
    then have "length str - j < length str - i" by arith
    then show ?thesis using 2 Some by simp
  qed
qed

definition findNewlineIndexes :: "string \<Rightarrow> nat list" where
  "findNewlineIndexes str = findNewlineLoop str (indexOf str [CHR 0x0A] 0)"

text \<open>
  The \<open>for\<close> loop of \<open>indexesToSourceRange\<close> over the state
  \<open>(startLineNumLinesIntoText, startOfLineIndex, endLineNumLinesIntoText, endOfLineIndex)\<close>;
  the \<open>else\<close> branch is the \<open>break\<close>.
\<close>

fun indexesLoop ::
  "nat \<Rightarrow> nat \<Rightarrow> nat list \<Rightarrow> int \<times> nat \<times> int \<times> nat \<Rightarrow> int \<times> nat \<times> int \<times> nat" where
  "indexesLoop s e [] st = st"
| "indexesLoop s e (index # rest) (sl, sol, el, eol) =
     (let (sl', sol') = (if index < s then (sl + 1, index + 1) else (sl, sol))
      in if index < e then indexesLoop s e rest (sl', sol', el + 1, index + 1)
         else (sl', sol', el, eol))"

definition indexesToSourceRange :: "nat \<Rightarrow> nat \<Rightarrow> string \<Rightarrow> nat list \<Rightarrow> SourceRange" where
  "indexesToSourceRange s e filename newlineIndexes =
     (case indexesLoop s e newlineIndexes (0, 0, 0, 0) of
        (sl, sol, el, eol) \<Rightarrow>
          \<lparr>range_file = filename,
           range_start = \<lparr>line = sl, column = int s - int sol\<rparr>,
           range_end = \<lparr>line = el, column = int e - int eol\<rparr>\<rparr>)"

subsection \<open>Scanned databinding expressions\<close>

datatype js_error = TypeError | SyntaxError | Error string

datatype DatabindingInto = StringInterpolation | Attribute

record ASTAttribute =
  attr_name :: string
  attr_value :: string

text \<open>Of a parse5 node the scanner reads \<open>value\<close> (of a text node) and \<open>attrs\<close>.\<close>

record ASTNode =
  isTextNode :: bool
  node_value :: "string option"
  attrs :: "ASTAttribute list option"

record 'ast ScannedDatabindingExpression =
  astNode :: ASTNode
  attribute :: "ASTAttribute option"
  sourceRange :: "SourceRange option"
  warnings :: "string list"
  direction :: char
  expressionText :: string
  expressionAst :: 'ast
  databindingInto :: DatabindingInto
  eventName :: "string option"

text \<open>
  What the scanner calls outside this file:
  \<open>espree.parse\<close> (\<open>None\<close> when it throws a syntax error), \<open>correctSourceRange\<close> of the
  model, and the parsed document's \<open>sourceRangeForNode\<close> and
  \<open>sourceRangeForAttributeValue\<close> (\<open>None\<close> for \<open>undefined\<close>).
\<close>

record 'ast Deps =
  espree_parse :: "string \<Rightarrow> 'ast option"
  correctSourceRange :: "SourceRange \<Rightarrow> LocationOffset \<Rightarrow> SourceRange option"
  sourceRangeForNode :: "ASTNode \<Rightarrow> SourceRange option"
  sourceRangeForAttributeValue :: "ASTNode \<Rightarrow> string \<Rightarrow> SourceRange option"

text \<open>
  The constructor of \<open>ScannedDatabindingExpression\<close>: \<open>warnings\<close> starts empty, and the
  expression text is parsed, which throws on a syntax error.
\<close>

definition new_ScannedDatabindingExpression ::
  "'ast Deps \<Rightarrow> ASTNode \<Rightarrow> ASTAttribute option \<Rightarrow> SourceRange option \<Rightarrow> char \<Rightarrow> string \<Rightarrow>
   string option \<Rightarrow> DatabindingInto \<Rightarrow> js_error + 'ast ScannedDatabindingExpression" where
  "new_ScannedDatabindingExpression deps node attr rng dir text event into =
     (case espree_parse deps text of
        None \<Rightarrow> Inl SyntaxError
      | Some ast \<Rightarrow>
          Inr \<lparr>astNode = node, attribute = attr, sourceRange = rng, warnings = [],
               direction = dir, expressionText = text, expressionAst = ast,
               databindingInto = into, eventName = event\<rparr>)"

text \<open>
  \<open>for (const dataBinding of dataBindings) results.push(new ...)\<close>: an exception of the
  constructor ends the loop.
\<close>

fun push_each :: "('b \<Rightarrow> js_error + 'r) \<Rightarrow> 'b list \<Rightarrow> 'r list \<Rightarrow> js_error + 'r list" where
  "push_each mk [] results = Inr results"
| "push_each mk (b # bs) results =
     (case mk b of Inl e \<Rightarrow> Inl e | Inr x \<Rightarrow> push_each mk bs (results @ [x]))"

text \<open>The body of the loop in \<open>_extractDataBindingsFromTextNode\<close>.\<close>

definition textNodeExpression ::
  "'ast Deps \<Rightarrow> ASTNode \<Rightarrow> SourceRange \<Rightarrow> LocationOffset \<Rightarrow> nat list \<Rightarrow> RawDatabinding \<Rightarrow>
   js_error + 'ast ScannedDatabindingExpression" where
  "textNodeExpression deps node nodeSourceRange startOfTextNodeOffset newlineIndexes dataBinding =
     (let sourceRange' =
            indexesToSourceRange (startIndex dataBinding) (endIndex dataBinding)
              (range_file nodeSourceRange) newlineIndexes
      in new_ScannedDatabindingExpression deps node None
           (correctSourceRange deps sourceRange' startOfTextNodeOffset)
           (rawDirection dataBinding) (rawExpressionText dataBinding)
           None StringInterpolation)"

definition extractDataBindingsFromTextNode ::
  "'ast Deps \<Rightarrow> ASTNode \<Rightarrow> 'ast ScannedDatabindingExpression list \<Rightarrow>
   js_error + 'ast ScannedDatabindingExpression list" where
  "extractDataBindingsFromTextNode deps node results =
     (let text = (case node_value node of None \<Rightarrow> [] | Some v \<Rightarrow> v);
          dataBindings = findDatabindingInString text
      in if length dataBindings = 0 then Inr results
         else let newlineIndexes = findNewlineIndexes text
           in (case sourceRangeForNode deps node of
                 None \<Rightarrow> Inl TypeError
               | Some nodeSourceRange \<Rightarrow>
                   let startOfTextNodeOffset =
                         \<lparr>offset_line = line (range_start nodeSourceRange),
                          offset_col = column (range_start nodeSourceRange)\<rparr>
                   in push_each
                        (textNodeExpression deps node nodeSourceRange startOfTextNodeOffset
                           newlineIndexes)
                        dataBindings results))"

subsection \<open>The event-name suffix\<close>

text \<open>
  \<open>expressionText.match(/(.*)::(.*)/)\<close>. A dot matches any character but a line
  terminator. At a start position the first group takes every character up to the next
  line terminator and then gives characters back, one at a time, until \<open>::\<close> follows
  (\<open>backtrack\<close>); the second group takes the rest of the line. The match is tried at
  each start position from the left (\<open>match_event\<close>).
\<close>

definition isLineTerminator :: "char \<Rightarrow> bool" where
  "isLineTerminator c = (c = CHR 0x0A \<or> c = CHR 0x0D)"

definition dots :: "string \<Rightarrow> string" where
  "dots s = takeWhile (\<lambda>c. \<not> isLineTerminator c) s"

fun backtrack :: "string \<Rightarrow> nat \<Rightarrow> nat option" where
  "backtrack s 0 = (if startsWith s ''::'' then Some 0 else None)"
| "backtrack s (Suc n) =
     (if startsWith (drop (Suc n) s) ''::'' then Some (Suc n) else backtrack s n)"

definition match_at :: "string \<Rightarrow> (string \<times> string) option" where
  "match_at s =
     (case backtrack s (length (dots s)) of
        None \<Rightarrow> None
      | Some k \<Rightarrow> Some (take k s, dots (drop (k + 2) s)))"

fun match_event :: "string \<Rightarrow> (string \<times> string) option" where
  "match_event [] = match_at []"
| "match_event (c # cs) =
     (case match_at (c # cs) of Some r \<Rightarrow> Some r | None \<Rightarrow> match_event cs)"

subsection \<open>Databindings in attribute values\<close>

text \<open>The body of the loop in \<open>_extractDataBindingsFromAttr\<close>.\<close>

definition attrExpression ::
  "'ast Deps \<Rightarrow> ASTNode \<Rightarrow> ASTAttribute \<Rightarrow> SourceRange \<Rightarrow> LocationOffset \<Rightarrow> nat list \<Rightarrow>
   RawDatabinding \<Rightarrow> js_error + 'ast ScannedDatabindingExpression" where
  "attrExpression deps node attr attributeValueRange attributeOffset newlineIndexes dataBinding =
     (let isFullAttributeBinding =
            (startIndex dataBinding = 2 \<and>
             endIndex dataBinding + 2 = length (attr_value attr));
          into = (if isFullAttributeBinding then Attribute else StringInterpolation);
          matched = (if rawDirection dataBinding = CHR ''{''
                     then match_event (rawExpressionText dataBinding) else None);
          text = (case matched of Some (m1, m2) \<Rightarrow> m1
                  | None \<Rightarrow> rawExpressionText dataBinding);
          event = (case matched of Some (m1, m2) \<Rightarrow> Some m2 | None \<Rightarrow> None);
          sourceRange' =
            indexesToSourceRange (startIndex dataBinding) (endIndex dataBinding)
              (range_file attributeValueRange) newlineIndexes
      in new_ScannedDatabindingExpression deps node (Some attr)
           (correctSourceRange deps sourceRange' attributeOffset)
           (rawDirection dataBinding) text event into)"

definition extractDataBindingsFromAttr ::
  "'ast Deps \<Rightarrow> ASTNode \<Rightarrow> ASTAttribute \<Rightarrow> 'ast ScannedDatabindingExpression list \<Rightarrow>
   js_error + 'ast ScannedDatabindingExpression list" where
  "extractDataBindingsFromAttr deps node attr results =
     (if attr_value attr = [] then Inr results
      else
        let dataBindings = findDatabindingInString (attr_value attr)
        in (case sourceRangeForAttributeValue deps node (attr_name attr) of
              None \<Rightarrow> Inl TypeError
            | Some attributeValueRange \<Rightarrow>
                let attributeOffset =
                      \<lparr>offset_line = line (range_start attributeValueRange),
                       offset_col = column (range_start attributeValueRange)\<rparr>;
                    newlineIndexes = findNewlineIndexes (attr_value attr)
                in push_each
                     (attrExpression deps node attr attributeValueRange attributeOffset
                        newlineIndexes)
                     dataBindings results))"

subsection \<open>ExpressionScanner.scan\<close>

text \<open>
  The callback that \<open>scan\<close> gives to \<open>dom5.nodeWalkAll\<close>, and the walk itself over
  \<open>nodes\<close>, the nodes of the contents of the databinding templates in document order.
\<close>

fun extractFromAttrs ::
  "'ast Deps \<Rightarrow> ASTNode \<Rightarrow> ASTAttribute list \<Rightarrow> 'ast ScannedDatabindingExpression list \<Rightarrow>
   js_error + 'ast ScannedDatabindingExpression list" where
  "extractFromAttrs deps node [] results = Inr results"
| "extractFromAttrs deps node (attr # rest) results =
     (case extractDataBindingsFromAttr deps node attr results of
        Inl e \<Rightarrow> Inl e
      | Inr results' \<Rightarrow> extractFromAttrs deps node rest results')"

definition scan_node ::
  "'ast Deps \<Rightarrow> ASTNode \<Rightarrow> 'ast ScannedDatabindingExpression list \<Rightarrow>
   js_error + 'ast ScannedDatabindingExpression list" where
  "scan_node deps node results =
     (case (if isTextNode node \<and> node_value node \<noteq> None \<and> node_value node \<noteq> Some []
            then extractDataBindingsFromTextNode deps node results
            else Inr results) of
        Inl e \<Rightarrow> Inl e
      | Inr results' \<Rightarrow>
          (case attrs node of
             None \<Rightarrow> Inr results'
           | Some as \<Rightarrow> extractFromAttrs deps node as results'))"

fun scan_nodes ::
  "'ast Deps \<Rightarrow> ASTNode list \<Rightarrow> 'ast ScannedDatabindingExpression list \<Rightarrow>
   js_error + 'ast ScannedDatabindingExpression list" where
  "scan_nodes deps [] results = Inr results"
| "scan_nodes deps (node # rest) results =
     (case scan_node deps node results of
        Inl e \<Rightarrow> Inl e
      | Inr results' \<Rightarrow> scan_nodes deps rest results')"

definition scan :: "'ast Deps \<Rightarrow> ASTNode list \<Rightarrow> js_error + 'ast ScannedDatabindingExpression list" where
  "scan deps nodes = scan_nodes deps nodes []"

subsection \<open>What the string scan finds\<close>

text \<open>
  The scan is described by where a pattern occurs in the string: \<open>next_opener str pos i m\<close>
  says that \<open>m\<close> is the leftmost opener at or after \<open>pos\<close> and stands at index \<open>i\<close>;
  \<open>first_closer str m i e\<close> says that the first closer matching \<open>m\<close> after that opener
  stands at index \<open>e\<close>.
\<close>

definition occurs_at :: "string \<Rightarrow> string \<Rightarrow> nat \<Rightarrow> bool" where
  "occurs_at str pat j = startsWith (drop j str) pat"

lemma find_sub_Some:
  "find_sub pat s i = Some e \<Longrightarrow>
     startsWith (drop (e - i) s) pat \<and> (\<forall>k<e - i. \<not> startsWith (drop k s) pat)"
proof (induction s arbitrary: i)
  case Nil
  then show ?case by (simp add: startsWith_def split: if_splits)
next
  case (Cons c cs)
  show ?case
  proof (cases "startsWith (c # cs) pat")
    case True
    with Cons.prems have "e = i" by simp
    with True show ?thesis by simp
  next
    case False
    with Cons.prems have f: "find_sub pat cs (Suc i) = Some e" by simp
    from find_sub_bounds[OF f] have le: "Suc i \<le> e" by simp
    from Cons.IH[OF f] have ih: "startsWith (drop (e - Suc i) cs) pat"
      "\<forall>k<e - Suc i. \<not> startsWith (drop k cs) pat" by auto
    from le have eq: "e - i = Suc (e - Suc i)" by simp
    have "\<forall>k<e - i. \<not> startsWith (drop k (c # cs)) pat"
    proof (intro allI impI)
      fix k assume "k < e - i"
      show "\<not> startsWith (drop k (c # cs)) pat"
      proof (cases k)
        case 0
        with False show ?thesis by simp
      next
        case (Suc k')
        with \<open>k < e - i\<close> eq have "k' < e - Suc i" by simp
        with ih(2) Suc show ?thesis by simp
      qed
    qed
    with ih(1) eq show ?thesis by simp
  qed
qed

lemma find_sub_None:
  "find_sub pat s i = None \<Longrightarrow> \<not> startsWith (drop k s) pat"
proof (induction s arbitrary: i k)
  case Nil
  then show ?case by (auto simp add: startsWith_def split: if_splits)
next
  case (Cons c cs)
  from Cons.prems have a: "\<not> startsWith (c # cs) pat" and b: "find_sub pat cs (Suc i) = None"
    by (auto split: if_splits)
  show ?case
  proof (cases k)
    case 0
    with a show ?thesis by simp
  next
    case (Suc k')
    with Cons.IH[OF b] show ?thesis by simp
  qed
qed

lemma indexOf_Some:
  assumes "indexOf str pat pos = Some e"
  shows "pos \<le> e" and "occurs_at str pat e"
    and "\<And>j. pos \<le> j \<Longrightarrow> j < e \<Longrightarrow> \<not> occurs_at str pat j"
proof -
  from assms have f: "find_sub pat (drop pos str) pos = Some e" by (simp add: indexOf_def)
  from find_sub_bounds[OF f] show le: "pos \<le> e" by simp
  from find_sub_Some[OF f] have s: "startsWith (drop (e - pos) (drop pos str)) pat"
    and n: "\<forall>k<e - pos. \<not> startsWith (drop k (drop pos str)) pat" by auto
  from s le show "occurs_at str pat e" by (simp add: occurs_at_def)
  fix j assume "pos \<le> j" "j < e"
  then have "j - pos < e - pos" by arith
  with n have "\<not> startsWith (drop (j - pos) (drop pos str)) pat" by blast
  with \<open>pos \<le> j\<close> show "\<not> occurs_at str pat j" by (simp add: occurs_at_def)
qed

lemma indexOf_None:
  assumes "indexOf str pat pos = None" and "pos \<le> j"
  shows "\<not> occurs_at str pat j"
proof -
  from assms(1) have "find_sub pat (drop pos str) pos = None" by (simp add: indexOf_def)
  from find_sub_None[OF this, of "j - pos"] assms(2) show ?thesis by (simp add: occurs_at_def)
qed

lemma find_opener_Some:
  "find_opener s i = Some (idx, m) \<Longrightarrow>
     (m = ''{{'' \<or> m = ''[['') \<and> startsWith (drop (idx - i) s) m \<and>
     (\<forall>k<idx - i. \<not> startsWith (drop k s) ''{{'' \<and> \<not> startsWith (drop k s) ''[['')"
proof (induction s arbitrary: i)
  case Nil
  then show ?case by simp
next
  case (Cons c cs)
  show ?case
  proof (cases "startsWith (c # cs) ''{{'' \<or> startsWith (c # cs) ''[[''")
    case True
    with Cons.prems have "idx = i" by (auto split: if_splits)
    with True Cons.prems show ?thesis by (auto split: if_splits)
  next
    case False
    with Cons.prems have f: "find_opener cs (Suc i) = Some (idx, m)" by simp
    from find_opener_bounds[OF f] have le: "Suc i \<le> idx" by simp
    from Cons.IH[OF f] have ih: "m = ''{{'' \<or> m = ''[[''" "startsWith (drop (idx - Suc i) cs) m"
      "\<forall>k<idx - Suc i. \<not> startsWith (drop k cs) ''{{'' \<and> \<not> startsWith (drop k cs) ''[[''" by auto
    from le have eq: "idx - i = Suc (idx - Suc i)" by simp
    have "\<forall>k<idx - i. \<not> startsWith (drop k (c # cs)) ''{{'' \<and> \<not> startsWith (drop k (c # cs)) ''[[''"
    proof (intro allI impI)
      fix k assume "k < idx - i"
      show "\<not> startsWith (drop k (c # cs)) ''{{'' \<and> \<not> startsWith (drop k (c # cs)) ''[[''"
      proof (cases k)
        case 0
        with False show ?thesis by simp
      next
        case (Suc k')
        with \<open>k < idx - i\<close> eq have "k' < idx - Suc i" by simp
        with ih(3) Suc show ?thesis by simp
      qed
    qed
    with ih(1,2) eq show ?thesis by simp
  qed
qed

lemma find_opener_None:
  "find_opener s i = None \<Longrightarrow> \<not> startsWith (drop k s) ''{{'' \<and> \<not> startsWith (drop k s) ''[[''"
proof (induction s arbitrary: i k)
  case Nil
  then show ?case by (simp add: startsWith_def)
next
  case (Cons c cs)
  from Cons.prems have a: "\<not> startsWith (c # cs) ''{{''" "\<not> startsWith (c # cs) ''[[''"
    and b: "find_opener cs (Suc i) = None"
    by (auto split: if_splits)
  show ?case
  proof (cases k)
    case 0
    with a show ?thesis by simp
  next
    case (Suc k')
    with Cons.IH[OF b] show ?thesis by simp
  qed
qed

definition closers_for :: "string \<Rightarrow> string" where
  "closers_for m = (if m = ''{{'' then ''}}'' else '']]'')"

definition next_opener :: "string \<Rightarrow> nat \<Rightarrow> nat \<Rightarrow> string \<Rightarrow> bool" where
  "next_opener str pos i m =
     (pos \<le> i \<and> (m = ''{{'' \<or> m = ''[['') \<and> occurs_at str m i \<and>
      (\<forall>j\<in>{pos..<i}. \<not> occurs_at str ''{{'' j \<and> \<not> occurs_at str ''[['' j))"

definition first_closer :: "string \<Rightarrow> string \<Rightarrow> nat \<Rightarrow> nat \<Rightarrow> bool" where
  "first_closer str m i e =
     (i + 2 \<le> e \<and> occurs_at str (closers_for m) e \<and>
      (\<forall>j\<in>{i + 2..<e}. \<not> occurs_at str (closers_for m) j))"

lemma exec_openers_Some:
  assumes "exec_openers str pos = Some (i, m)"
  shows "next_opener str pos i m"
proof -
  from assms have f: "find_opener (drop pos str) pos = Some (i, m)" by (simp add: exec_openers_def)
  from find_opener_bounds[OF f] have le: "pos \<le> i" by simp
  from find_opener_Some[OF f] have m: "m = ''{{'' \<or> m = ''[[''"
    and s: "startsWith (drop (i - pos) (drop pos str)) m"
    and n: "\<forall>k<i - pos. \<not> startsWith (drop k (drop pos str)) ''{{'' \<and>
              \<not> startsWith (drop k (drop pos str)) ''[[''" by auto
  have "\<not> occurs_at str ''{{'' j \<and> \<not> occurs_at str ''[['' j" if "j \<in> {pos..<i}" for j
  proof -
    from that have "j - pos < i - pos" "pos \<le> j" by auto
    with n show ?thesis by (auto simp add: occurs_at_def)
  qed
  with le m s show ?thesis by (simp add: next_opener_def occurs_at_def)
qed

lemma exec_openers_None:
  assumes "exec_openers str pos = None" and "pos \<le> j"
  shows "\<not> occurs_at str ''{{'' j \<and> \<not> occurs_at str ''[['' j"
proof -
  from assms(1) have "find_opener (drop pos str) pos = None" by (simp add: exec_openers_def)
  from find_opener_None[OF this, of "j - pos"] assms(2) show ?thesis by (simp add: occurs_at_def)
qed

lemma occurs_at_distinct: "occurs_at str ''{{'' j \<Longrightarrow> \<not> occurs_at str ''[['' j"
  by (cases "drop j str") (auto simp add: occurs_at_def startsWith_def)

lemma next_opener_exec:
  assumes "next_opener str pos i m"
  shows "exec_openers str pos = Some (i, m)"
proof (cases "exec_openers str pos")
  case None
  from assms have "pos \<le> i" "occurs_at str m i" "m = ''{{'' \<or> m = ''[[''"
    by (auto simp add: next_opener_def)
  with exec_openers_None[OF None, of i] show ?thesis by auto
next
  case (Some r)
  obtain i' m' where r: "r = (i', m')" by (cases r)
  with Some have "next_opener str pos i' m'" using exec_openers_Some by simp
  then have a': "pos \<le> i'" "occurs_at str m' i'" "m' = ''{{'' \<or> m' = ''[[''"
    and n': "\<forall>j\<in>{pos..<i'}. \<not> occurs_at str ''{{'' j \<and> \<not> occurs_at str ''[['' j"
    by (auto simp add: next_opener_def)
  from assms have a: "pos \<le> i" "occurs_at str m i" "m = ''{{'' \<or> m = ''[[''"
    and n: "\<forall>j\<in>{pos..<i}. \<not> occurs_at str ''{{'' j \<and> \<not> occurs_at str ''[['' j"
    by (auto simp add: next_opener_def)
  have "\<not> i' < i" using n a' by auto
  moreover have "\<not> i < i'" using n' a by auto
  ultimately have "i' = i" by simp
  with a a' have "m' = m" using occurs_at_distinct by auto
  with \<open>i' = i\<close> r Some show ?thesis by simp
qed

lemma first_closer_indexOf:
  assumes "first_closer str m i e"
  shows "indexOf str (closers_for m) (i + 2) = Some e"
proof (cases "indexOf str (closers_for m) (i + 2)")
  case None
  from assms have "i + 2 \<le> e" "occurs_at str (closers_for m) e" by (auto simp add: first_closer_def)
  with indexOf_None[OF None] show ?thesis by blast
next
  case (Some e')
  from indexOf_Some[OF Some] have a': "i + 2 \<le> e'" "occurs_at str (closers_for m) e'"
     and n': "\<And>j. i + 2 \<le> j \<Longrightarrow> j < e' \<Longrightarrow> \<not> occurs_at str (closers_for m) j" by auto
  from assms have a: "i + 2 \<le> e" "occurs_at str (closers_for m) e"
    and n: "\<forall>j\<in>{i + 2..<e}. \<not> occurs_at str (closers_for m) j" by (auto simp add: first_closer_def)
  have "\<not> e' < e" using n a' by auto
  moreover have "\<not> e < e'" using n' a by auto
  ultimately show ?thesis using Some by simp
qed

lemma no_closer_indexOf:
  assumes "\<forall>j. i + 2 \<le> j \<longrightarrow> \<not> occurs_at str (closers_for m) j"
  shows "indexOf str (closers_for m) (i + 2) = None"
proof (cases "indexOf str (closers_for m) (i + 2)")
  case None
  then show ?thesis .
next
  case (Some e)
  from indexOf_Some(1,2)[OF Some] assms show ?thesis by blast
qed

text \<open>
  C8: the scan finds the next opener \<open>{{\<close> or \<open>[[\<close> and looks for its matching
  closer after the opener. If there is none, the opener yields no expression and the scan
  of the string stops; if there is one, the text between them is the next expression and
  the scan goes on after the closer. The string \<open>[[x\<close> gives no expression, and a text
  node holding it leaves the results as they are (no expression, so no warning, and no
  exception).
\<close>

theorem unclosed_opener_stops_scan:
  "(next_opener str pos i m \<longrightarrow>
     ((\<forall>j. i + 2 \<le> j \<longrightarrow> \<not> occurs_at str (closers_for m) j) \<longrightarrow>
        findDatabindingFrom str pos = []) \<and>
     (\<forall>e. first_closer str m i e \<longrightarrow>
        findDatabindingFrom str pos =
          \<lparr>rawExpressionText = slice str (i + 2) e, startIndex = i + 2, endIndex = e,
           rawDirection = (if m = ''{{'' then CHR ''{'' else CHR ''['')\<rparr>
          # findDatabindingFrom str (e + 2))) \<and>
   findDatabindingInString ''[[x'' = [] \<and>
   scan deps [\<lparr>isTextNode = True, node_value = Some ''[[x'', attrs = None\<rparr>] = Inr []"
proof -
  have gen: "next_opener str pos i m \<longrightarrow>
     ((\<forall>j. i + 2 \<le> j \<longrightarrow> \<not> occurs_at str (closers_for m) j) \<longrightarrow>
        findDatabindingFrom str pos = []) \<and>
     (\<forall>e. first_closer str m i e \<longrightarrow>
        findDatabindingFrom str pos =
          \<lparr>rawExpressionText = slice str (i + 2) e, startIndex = i + 2, endIndex = e,
           rawDirection = (if m = ''{{'' then CHR ''{'' else CHR ''['')\<rparr>
          # findDatabindingFrom str (e + 2))"
  proof (intro impI conjI allI)
    assume o: "next_opener str pos i m"
    from next_opener_exec[OF o] have ex: "exec_openers str pos = Some (i, m)" .
    {
      assume "\<forall>j. i + 2 \<le> j \<longrightarrow> \<not> occurs_at str (closers_for m) j"
      from no_closer_indexOf[OF this] ex
      show "findDatabindingFrom str pos = []"
        by (simp add: closers_for_def findDatabindingFrom.simps[of str pos])
    }
    {
      fix e assume "first_closer str m i e"
      from first_closer_indexOf[OF this] ex
      show "findDatabindingFrom str pos =
            \<lparr>rawExpressionText = slice str (i + 2) e, startIndex = i + 2, endIndex = e,
             rawDirection = (if m = ''{{'' then CHR ''{'' else CHR ''['')\<rparr>
            # findDatabindingFrom str (e + 2)"
        by (simp add: closers_for_def findDatabindingFrom.simps[of str pos])
    }
  qed
  have x: "findDatabindingInString ''[[x'' = []"
    by (simp add: findDatabindingInString_def findDatabindingFrom.simps exec_openers_def
        indexOf_def startsWith_def)
  have "scan deps [\<lparr>isTextNode = True, node_value = Some ''[[x'', attrs = None\<rparr>] = Inr []"
    using x by (simp add: scan_def scan_node_def extractDataBindingsFromTextNode_def)
  with gen x show ?thesis by blast
qed

theorem unclosed_opener_stops_scan_witness:
  "findDatabindingFrom ''[[x'' 0 = [] \<and>
   findDatabindingFrom ''a{{b}}c'' 0 =
     [\<lparr>rawExpressionText = ''b'', startIndex = 3, endIndex = 4, rawDirection = CHR ''{''\<rparr>]"
proof -
  have o1: "next_opener ''[[x'' 0 0 ''[[''"
    by (simp add: next_opener_def occurs_at_def startsWith_def)
  have n1: "\<forall>j. 0 + 2 \<le> j \<longrightarrow> \<not> occurs_at ''[[x'' (closers_for ''[['') j"
  proof (intro allI impI)
    fix j :: nat assume "0 + 2 \<le> j"
    then have le: "length (take 2 (drop j ''[[x'')) \<le> 1" by simp
    have "take 2 (drop j ''[[x'') \<noteq> '']]''"
    proof
      assume "take 2 (drop j ''[[x'') = '']]''"
      then have "length (take 2 (drop j ''[[x'')) = length '']]''" by (rule arg_cong)
      with le show False by simp
    qed
    then show "\<not> occurs_at ''[[x'' (closers_for ''[['') j"
      by (simp add: occurs_at_def startsWith_def closers_for_def numeral_2_eq_2)
  qed
  have o2: "next_opener ''a{{b}}c'' 0 1 ''{{''"
    by (simp add: next_opener_def occurs_at_def startsWith_def)
  have c2: "first_closer ''a{{b}}c'' ''{{'' 1 4"
    by code_simp
  have r2: "findDatabindingFrom ''a{{b}}c'' 6 = []"
    by (simp add: findDatabindingFrom.simps exec_openers_def startsWith_def)
  from unclosed_opener_stops_scan[of "''[[x''" 0 0 "''[[''"] o1 n1
  have a: "findDatabindingFrom ''[[x'' 0 = []" by blast
  from unclosed_opener_stops_scan[of "''a{{b}}c''" 0 1 "''{{''"] o2 c2
  have "findDatabindingFrom ''a{{b}}c'' 0 =
          \<lparr>rawExpressionText = slice ''a{{b}}c'' (1 + 2) 4, startIndex = 1 + 2, endIndex = 4,
           rawDirection = (if ''{{'' = ''{{'' then CHR ''{'' else CHR ''['')\<rparr>
          # findDatabindingFrom ''a{{b}}c'' (4 + 2)"
    by blast
  with r2 have b: "findDatabindingFrom ''a{{b}}c'' 0 =
     [\<lparr>rawExpressionText = ''b'', startIndex = 3, endIndex = 4, rawDirection = CHR ''{''\<rparr>]"
    by (simp add: slice_def)
  from a b show ?thesis by simp
qed


subsection \<open>What the extracted expressions hold\<close>

text \<open>
  \<open>opener_of d\<close> and \<open>closer_of d\<close> are the delimiters of a binding of direction \<open>d\<close>;
  \<open>contains_sep s\<close> says that \<open>::\<close> occurs in \<open>s\<close>.
\<close>

lemma push_each_Inr:
  "push_each mk bs results = Inr rs \<Longrightarrow>
     \<exists>new. rs = results @ new \<and> list_all2 (\<lambda>b x. mk b = Inr x) bs new"
proof (induction bs arbitrary: results)
  case Nil
  then show ?case by simp
next
  case (Cons b bs)
  from Cons.prems obtain x where x: "mk b = Inr x" and r: "push_each mk bs (results @ [x]) = Inr rs"
    by (auto split: sum.splits)
  from Cons.IH[OF r] obtain new where "rs = (results @ [x]) @ new"
    "list_all2 (\<lambda>b x. mk b = Inr x) bs new" by blast
  with x have "rs = results @ (x # new) \<and> list_all2 (\<lambda>b x. mk b = Inr x) (b # bs) (x # new)"
    by simp
  then show ?case by blast
qed

definition opener_of :: "char \<Rightarrow> string" where
  "opener_of d = (if d = CHR ''{'' then ''{{'' else ''[['')"

definition closer_of :: "char \<Rightarrow> string" where
  "closer_of d = (if d = CHR ''{'' then ''}}'' else '']]'')"

lemma raw_binding_props:
  "b \<in> set (findDatabindingFrom str pos) \<Longrightarrow>
     pos + 2 \<le> startIndex b \<and> startIndex b \<le> endIndex b \<and> endIndex b + 2 \<le> length str \<and>
     rawExpressionText b = slice str (startIndex b) (endIndex b) \<and>
     (rawDirection b = CHR ''{'' \<or> rawDirection b = CHR ''['') \<and>
     occurs_at str (opener_of (rawDirection b)) (startIndex b - 2) \<and>
     occurs_at str (closer_of (rawDirection b)) (endIndex b)"
proof (induction str pos rule: findDatabindingFrom.induct)
  case (1 str lastIndex)
  show ?case
  proof (cases "exec_openers str lastIndex")
    case None
    with "1.prems" show ?thesis by (simp add: findDatabindingFrom.simps[of str lastIndex])
  next
    case (Some r)
    obtain i m where r: "r = (i, m)" by (cases r)
    from Some r have ex: "exec_openers str lastIndex = Some (i, m)" by simp
    from exec_openers_Some[OF ex] have o: "lastIndex \<le> i" "m = ''{{'' \<or> m = ''[[''" "occurs_at str m i"
      by (auto simp add: next_opener_def)
    define closers where "closers = (if m = ''{{'' then ''}}'' else '']]'')"
    define dir where "dir = (if m = ''{{'' then CHR ''{'' else CHR ''['')"
    show ?thesis
    proof (cases "indexOf str closers (i + 2)")
      case None
      with "1.prems" ex show ?thesis
        by (simp add: findDatabindingFrom.simps[of str lastIndex] closers_def)
    next
      case (Some e)
      have cl: "closers \<noteq> []" "length closers = 2" by (auto simp add: closers_def)
      from indexOf_Some(1,2)[OF Some] indexOf_bounds[OF Some] cl
      have c: "i + 2 \<le> e" "occurs_at str closers e" "e + 2 \<le> length str"
        by auto
      let ?b = "\<lparr>rawExpressionText = slice str (i + 2) e, startIndex = i + 2, endIndex = e,
                 rawDirection = dir\<rparr>"
      from ex Some have eq: "findDatabindingFrom str lastIndex = ?b # findDatabindingFrom str (e + 2)"
        by (simp add: findDatabindingFrom.simps[of str lastIndex] closers_def dir_def)
      with "1.prems" consider "b = ?b" | "b \<in> set (findDatabindingFrom str (e + 2))" by auto
      then show ?thesis
      proof cases
        case 1
        with o c show ?thesis
          by (auto simp add: opener_of_def closer_of_def dir_def closers_def)
      next
        case 2
        have "pos' + 2 \<le> startIndex b \<and> startIndex b \<le> endIndex b \<and> endIndex b + 2 \<le> length str \<and>
     rawExpressionText b = slice str (startIndex b) (endIndex b) \<and>
     (rawDirection b = CHR ''{'' \<or> rawDirection b = CHR ''['') \<and>
     occurs_at str (opener_of (rawDirection b)) (startIndex b - 2) \<and>
     occurs_at str (closer_of (rawDirection b)) (endIndex b)" if "pos' = e + 2" for pos'
          using "1.IH"[OF ex refl refl refl refl Some[unfolded closers_def]] 2 that
          by (simp add: closers_def dir_def)
        with c o show ?thesis by auto
      qed
    qed
  qed
qed

lemma new_expression_fields:
  assumes "new_ScannedDatabindingExpression deps node attr rng dir text event into = Inr x"
  shows "direction x = dir" "expressionText x = text" "eventName x = event"
    "databindingInto x = into" "warnings x = []" "attribute x = attr"
  using assms by (auto simp add: new_ScannedDatabindingExpression_def split: option.splits)

lemma spans_whole_value:
  assumes "b \<in> set (findDatabindingInString v)"
  shows "(startIndex b = 2 \<and> endIndex b + 2 = length v) \<longleftrightarrow>
         v = opener_of (rawDirection b) @ rawExpressionText b @ closer_of (rawDirection b)"
proof -
  from assms have "b \<in> set (findDatabindingFrom v 0)" by (simp add: findDatabindingInString_def)
  from raw_binding_props[OF this]
  have p: "2 \<le> startIndex b" "startIndex b \<le> endIndex b" "endIndex b + 2 \<le> length v"
    and t: "rawExpressionText b = slice v (startIndex b) (endIndex b)"
    and o: "occurs_at v (opener_of (rawDirection b)) (startIndex b - 2)"
    and c: "occurs_at v (closer_of (rawDirection b)) (endIndex b)" by auto
  have lo: "length (opener_of (rawDirection b)) = 2" and lc: "length (closer_of (rawDirection b)) = 2"
    by (auto simp add: opener_of_def closer_of_def)
  from p have lt: "length (rawExpressionText b) = endIndex b - startIndex b"
    by (simp add: t slice_def)
  show ?thesis
  proof
    assume a: "startIndex b = 2 \<and> endIndex b + 2 = length v"
    with o lo have 1: "take 2 v = opener_of (rawDirection b)"
      by (simp add: occurs_at_def startsWith_def)
    from a have "length v - endIndex b = 2" by arith
    then have "length (drop (endIndex b) v) = 2" by simp
    then have "take 2 (drop (endIndex b) v) = drop (endIndex b) v" by simp
    with c lc have 2: "drop (endIndex b) v = closer_of (rawDirection b)"
      by (simp add: occurs_at_def startsWith_def)
    have "v = take 2 v @ take (endIndex b - 2) (drop 2 v) @ drop (endIndex b) v"
    proof -
      from p a have "endIndex b - 2 + 2 = endIndex b" by arith
      then have "drop (endIndex b) v = drop (endIndex b - 2) (drop 2 v)"
        by (simp only: drop_drop)
      then have "take (endIndex b - 2) (drop 2 v) @ drop (endIndex b) v = drop 2 v"
        by (simp only: append_take_drop_id)
      then show ?thesis by simp
    qed
    with 1 2 a t show "v = opener_of (rawDirection b) @ rawExpressionText b @ closer_of (rawDirection b)"
      by (simp add: slice_def)
  next
    assume "v = opener_of (rawDirection b) @ rawExpressionText b @ closer_of (rawDirection b)"
    then have "length v = length (opener_of (rawDirection b) @ rawExpressionText b @ closer_of (rawDirection b))"
      by simp
    with lo lc lt have "length v = 4 + (endIndex b - startIndex b)" by simp
    with p show "startIndex b = 2 \<and> endIndex b + 2 = length v" by arith
  qed
qed

lemma attr_results:
  assumes "extractDataBindingsFromAttr deps node attr results = Inr rs"
  shows "\<exists>new r ao ni. rs = results @ new \<and>
           list_all2 (\<lambda>b x. attrExpression deps node attr r ao ni b = Inr x)
             (findDatabindingInString (attr_value attr)) new"
proof (cases "attr_value attr = []")
  case True
  with assms have "rs = results" by (simp add: extractDataBindingsFromAttr_def)
  moreover from True have "findDatabindingInString (attr_value attr) = []"
    by (simp add: findDatabindingInString_def findDatabindingFrom.simps exec_openers_def)
  ultimately show ?thesis by simp
next
  case False
  with assms obtain r where r: "sourceRangeForAttributeValue deps node (attr_name attr) = Some r"
    by (auto simp add: extractDataBindingsFromAttr_def Let_def split: option.splits)
  from assms False r obtain ao ni where
    "push_each (attrExpression deps node attr r ao ni) (findDatabindingInString (attr_value attr))
       results = Inr rs"
    by (simp add: extractDataBindingsFromAttr_def Let_def)
  from push_each_Inr[OF this] show ?thesis by blast
qed

lemma text_results:
  assumes "extractDataBindingsFromTextNode deps node results = Inr rs"
  shows "\<exists>new r off ni. rs = results @ new \<and>
           list_all2 (\<lambda>b x. textNodeExpression deps node r off ni b = Inr x)
             (findDatabindingInString (case node_value node of None \<Rightarrow> [] | Some v \<Rightarrow> v)) new"
proof (cases "findDatabindingInString (case node_value node of None \<Rightarrow> [] | Some v \<Rightarrow> v) = []")
  case True
  with assms have "rs = results" by (simp add: extractDataBindingsFromTextNode_def Let_def)
  with True show ?thesis by simp
next
  case False
  with assms obtain r where r: "sourceRangeForNode deps node = Some r"
    by (auto simp add: extractDataBindingsFromTextNode_def Let_def split: option.splits)
  from assms False r obtain off ni where
    "push_each (textNodeExpression deps node r off ni)
       (findDatabindingInString (case node_value node of None \<Rightarrow> [] | Some v \<Rightarrow> v)) results = Inr rs"
    by (simp add: extractDataBindingsFromTextNode_def Let_def)
  from push_each_Inr[OF this] show ?thesis by blast
qed

lemma attrExpression_fields:
  assumes "attrExpression deps node attr r ao ni b = Inr x"
  shows "direction x = rawDirection b"
    and "databindingInto x =
      (if startIndex b = 2 \<and> endIndex b + 2 = length (attr_value attr) then Attribute
       else StringInterpolation)"
    and "expressionText x =
      (case (if rawDirection b = CHR ''{'' then match_event (rawExpressionText b) else None) of
         Some (m1, m2) \<Rightarrow> m1 | None \<Rightarrow> rawExpressionText b)"
    and "eventName x =
      (case (if rawDirection b = CHR ''{'' then match_event (rawExpressionText b) else None) of
         Some (m1, m2) \<Rightarrow> Some m2 | None \<Rightarrow> None)"
  using assms unfolding attrExpression_def Let_def
  by (rule new_expression_fields)+

lemma textNodeExpression_fields:
  assumes "textNodeExpression deps node r off ni b = Inr x"
  shows "direction x = rawDirection b" and "databindingInto x = StringInterpolation"
    and "expressionText x = rawExpressionText b" and "eventName x = None"
  using assms unfolding textNodeExpression_def Let_def
  by (rule new_expression_fields)+

definition contains_sep :: "string \<Rightarrow> bool" where
  "contains_sep s = (\<exists>j\<in>{..<length s}. occurs_at s ''::'' j)"

lemma occurs_at_length: "occurs_at s pat j \<Longrightarrow> pat \<noteq> [] \<Longrightarrow> j + length pat \<le> length s"
proof -
  assume a: "occurs_at s pat j" and n: "pat \<noteq> []"
  then have "length (take (length pat) (drop j s)) = length pat"
    by (simp add: occurs_at_def startsWith_def)
  then have "length pat \<le> length s - j" by simp
  with n show ?thesis by (cases pat) auto
qed

lemma contains_sep_iff: "contains_sep s \<longleftrightarrow> (\<exists>j. occurs_at s ''::'' j)"
proof
  assume "contains_sep s"
  then show "\<exists>j. occurs_at s ''::'' j" by (auto simp add: contains_sep_def)
next
  assume "\<exists>j. occurs_at s ''::'' j"
  then obtain j where j: "occurs_at s ''::'' j" by blast
  from occurs_at_length[OF j] have "j < length s" by simp
  with j show "contains_sep s" by (auto simp add: contains_sep_def)
qed

lemma backtrack_Some:
  "backtrack s n = Some k \<Longrightarrow>
     k \<le> n \<and> occurs_at s ''::'' k \<and> (\<forall>j. k < j \<and> j \<le> n \<longrightarrow> \<not> occurs_at s ''::'' j)"
proof (induction n)
  case 0
  then show ?case by (simp add: occurs_at_def split: if_splits)
next
  case (Suc n)
  show ?case
  proof (cases "startsWith (drop (Suc n) s) ''::''")
    case True
    with Suc.prems have "k = Suc n" by simp
    with True show ?thesis by (auto simp add: occurs_at_def)
  next
    case False
    with Suc.prems have "backtrack s n = Some k" by simp
    from Suc.IH[OF this] have ih: "k \<le> n" "occurs_at s ''::'' k"
      "\<forall>j. k < j \<and> j \<le> n \<longrightarrow> \<not> occurs_at s ''::'' j" by auto
    have "\<not> occurs_at s ''::'' j" if "k < j \<and> j \<le> Suc n" for j
    proof (cases "j = Suc n")
      case True
      with False show ?thesis by (simp add: occurs_at_def)
    next
      case False
      with that ih(3) show ?thesis by auto
    qed
    with ih(1,2) show ?thesis by auto
  qed
qed

lemma backtrack_None:
  "backtrack s n = None \<Longrightarrow> j \<le> n \<Longrightarrow> \<not> occurs_at s ''::'' j"
proof (induction n)
  case 0
  then show ?case by (simp add: occurs_at_def split: if_splits)
next
  case (Suc n)
  from Suc.prems(1) have a: "\<not> startsWith (drop (Suc n) s) ''::''" and b: "backtrack s n = None"
    by (auto split: if_splits)
  show ?case
  proof (cases "j = Suc n")
    case True
    with a show ?thesis by (simp add: occurs_at_def)
  next
    case False
    with Suc.prems(2) have "j \<le> n" by simp
    from Suc.IH[OF b this] show ?thesis .
  qed
qed

lemma dots_no_terminator: "\<forall>c\<in>set s. \<not> isLineTerminator c \<Longrightarrow> dots s = s"
  by (simp add: dots_def)

lemma match_event_of_match_at: "match_at s = Some r \<Longrightarrow> match_event s = Some r"
  by (cases s) auto

lemma match_event_single_line:
  assumes nt: "\<forall>c\<in>set s. \<not> isLineTerminator c" and c: "contains_sep s"
  shows "\<exists>k. match_event s = Some (take k s, drop (k + 2) s) \<and> occurs_at s ''::'' k \<and>
             (\<forall>j>k. \<not> occurs_at s ''::'' j)"
proof -
  from c obtain j where j: "occurs_at s ''::'' j" by (auto simp add: contains_sep_def)
  from occurs_at_length[OF j] have jl: "j \<le> length s" by simp
  have d: "dots s = s" by (rule dots_no_terminator[OF nt])
  obtain k where k: "backtrack s (length s) = Some k"
  proof (cases "backtrack s (length s)")
    case None
    from backtrack_None[OF None jl] j show ?thesis by simp
  next
    case (Some k)
    with that show ?thesis .
  qed
  from backtrack_Some[OF k] have kp: "k \<le> length s" "occurs_at s ''::'' k"
    and kn: "\<forall>j. k < j \<and> j \<le> length s \<longrightarrow> \<not> occurs_at s ''::'' j" by auto
  have last: "\<not> occurs_at s ''::'' j'" if "k < j'" for j'
  proof (cases "j' \<le> length s")
    case True
    with that kn show ?thesis by simp
  next
    case False
    show ?thesis
    proof
      assume "occurs_at s ''::'' j'"
      from occurs_at_length[OF this] False show False by simp
    qed
  qed
  from nt have "\<forall>c\<in>set (drop (k + 2) s). \<not> isLineTerminator c" by (meson in_set_dropD)
  then have "dots (drop (k + 2) s) = drop (k + 2) s" by (rule dots_no_terminator)
  with k d have "match_at s = Some (take k s, drop (k + 2) s)" by (simp add: match_at_def)
  from match_event_of_match_at[OF this] kp(2) last show ?thesis by blast
qed

lemma match_at_None: "\<not> contains_sep s \<Longrightarrow> match_at s = None"
proof (cases "backtrack s (length (dots s))")
  case None
  then show ?thesis by (simp add: match_at_def)
next
  case (Some k)
  assume n: "\<not> contains_sep s"
  from backtrack_Some[OF Some] have "occurs_at s ''::'' k" by simp
  with n show ?thesis by (auto simp add: contains_sep_iff)
qed

lemma match_event_None: "\<not> contains_sep s \<Longrightarrow> match_event s = None"
proof (induction s)
  case Nil
  then show ?case by (simp add: match_at_None)
next
  case (Cons c cs)
  have "\<not> contains_sep cs"
  proof
    assume "contains_sep cs"
    then obtain j where "occurs_at cs ''::'' j" by (auto simp add: contains_sep_iff)
    then have "occurs_at (c # cs) ''::'' (Suc j)" by (simp add: occurs_at_def)
    with Cons.prems show False by (auto simp add: contains_sep_iff)
  qed
  from Cons.IH[OF this] match_at_None[OF Cons.prems] show ?case by simp
qed

lemma take_sep_drop:
  assumes "occurs_at s ''::'' k"
  shows "s = take k s @ ''::'' @ drop (k + 2) s"
proof -
  from assms have "take 2 (drop k s) = ''::''"
    by (simp add: occurs_at_def startsWith_def numeral_2_eq_2)
  moreover have "drop k s = take 2 (drop k s) @ drop 2 (drop k s)"
    by (simp only: append_take_drop_id)
  moreover have "drop 2 (drop k s) = drop (k + 2) s" by (simp add: add.commute)
  ultimately have "drop k s = ''::'' @ drop (k + 2) s" by metis
  moreover have "s = take k s @ drop k s" by simp
  ultimately show ?thesis by simp
qed


text \<open>
  An environment for evaluating examples. Its parser accepts the expression texts of the
  examples, which are JavaScript (\<open>foo\<close>, \<open>name\<close>, \<open>b\<close>, and \<open>f(1)/*::*/\<close>, a call
  followed by a comment), returning a tree (here the text itself), and throws on every
  other text, as \<open>espree.parse\<close> does on \<open>a::b\<close>. The node and the attribute value start
  at line 0, column 0 of \<open>a.html\<close>, so that correcting a range by that offset leaves it
  as it is.
\<close>

definition example_range :: SourceRange where
  "example_range =
     \<lparr>range_file = ''a.html'', range_start = \<lparr>line = 0, column = 0\<rparr>,
      range_end = \<lparr>line = 0, column = 0\<rparr>\<rparr>"

definition example_deps :: "string Deps" where
  "example_deps =
     \<lparr>espree_parse =
        (\<lambda>text. if text \<in> set [''foo'', ''name'', ''b'', ''f(1)/*::*/''] then Some text
                else None),
      correctSourceRange = (\<lambda>r off. Some r),
      sourceRangeForNode = (\<lambda>n. Some example_range),
      sourceRangeForAttributeValue = (\<lambda>n a. Some example_range)\<rparr>"

definition text_node :: "string \<Rightarrow> ASTNode" where
  "text_node s = \<lparr>isTextNode = True, node_value = Some s, attrs = None\<rparr>"

definition element_node :: "ASTAttribute list \<Rightarrow> ASTNode" where
  "element_node as = \<lparr>isTextNode = False, node_value = None, attrs = Some as\<rparr>"

text \<open>
  C6: a databinding extracted from an attribute value has \<open>databindingInto = Attribute\<close>
  if and only if its expression starts at index 2 and its closer ends the value, which is
  the case if and only if the value is the opener, the expression text and the closer and
  nothing else; otherwise it is \<open>StringInterpolation\<close>. A databinding extracted from a
  text node is always \<open>StringInterpolation\<close>. (\<open>new\<close> are the expressions the call
  adds to \<open>results\<close>, one for each raw binding of the string, in order.)
\<close>

theorem databindingInto_attribute_iff_whole_value:
  "(extractDataBindingsFromAttr deps node attr results = Inr rs \<longrightarrow>
      (\<exists>new. rs = results @ new \<and>
         list_all2
           (\<lambda>b x.
              (databindingInto x = Attribute \<longleftrightarrow>
                 startIndex b = 2 \<and> endIndex b + 2 = length (attr_value attr)) \<and>
              (databindingInto x = Attribute \<longleftrightarrow>
                 attr_value attr =
                   opener_of (rawDirection b) @ rawExpressionText b @ closer_of (rawDirection b)) \<and>
              (databindingInto x \<noteq> Attribute \<longrightarrow> databindingInto x = StringInterpolation))
           (findDatabindingInString (attr_value attr)) new)) \<and>
   (extractDataBindingsFromTextNode deps node results = Inr rs' \<longrightarrow>
      (\<exists>new. rs' = results @ new \<and>
         list_all2 (\<lambda>b x. databindingInto x = StringInterpolation)
           (findDatabindingInString (case node_value node of None \<Rightarrow> [] | Some v \<Rightarrow> v)) new))"
proof (intro conjI impI)
  let ?v = "attr_value attr"
  let ?P = "\<lambda>b x.
              (databindingInto x = Attribute \<longleftrightarrow>
                 startIndex b = 2 \<and> endIndex b + 2 = length ?v) \<and>
              (databindingInto x = Attribute \<longleftrightarrow>
                 ?v = opener_of (rawDirection b) @ rawExpressionText b @ closer_of (rawDirection b)) \<and>
              (databindingInto x \<noteq> Attribute \<longrightarrow> databindingInto x = StringInterpolation)"
  assume "extractDataBindingsFromAttr deps node attr results = Inr rs"
  from attr_results[OF this] obtain new r ao ni where n: "rs = results @ new"
    and l: "list_all2 (\<lambda>b x. attrExpression deps node attr r ao ni b = Inr x)
              (findDatabindingInString ?v) new" by blast
  have "list_all2 ?P (findDatabindingInString ?v) new"
  proof (rule list.rel_mono_strong[OF l])
    fix b x assume b: "b \<in> set (findDatabindingInString ?v)"
      and e: "attrExpression deps node attr r ao ni b = Inr x"
    note i = attrExpression_fields(2)[OF e]
    have sp: "(startIndex b = 2 \<and> endIndex b + 2 = length ?v) \<longleftrightarrow>
       ?v = opener_of (rawDirection b) @ rawExpressionText b @ closer_of (rawDirection b)"
      by (rule spans_whole_value[OF b])
    show "?P b x"
    proof (cases "startIndex b = 2 \<and> endIndex b + 2 = length ?v")
      case True
      with i have "databindingInto x = Attribute" by simp
      moreover from True sp have "attr_value attr =
         opener_of (rawDirection b) @ rawExpressionText b @ closer_of (rawDirection b)" by blast
      ultimately show ?thesis using True by simp
    next
      case False
      with i have "databindingInto x = StringInterpolation" by simp
      moreover from False sp have "attr_value attr \<noteq>
         opener_of (rawDirection b) @ rawExpressionText b @ closer_of (rawDirection b)" by blast
      ultimately show ?thesis using False by simp
    qed
  qed
  with n show "\<exists>new. rs = results @ new \<and> list_all2 ?P (findDatabindingInString ?v) new"
    by blast
next
  let ?text = "case node_value node of None \<Rightarrow> [] | Some v \<Rightarrow> v"
  assume "extractDataBindingsFromTextNode deps node results = Inr rs'"
  from text_results[OF this] obtain new r off ni where n: "rs' = results @ new"
    and l: "list_all2 (\<lambda>b x. textNodeExpression deps node r off ni b = Inr x)
              (findDatabindingInString ?text) new" by blast
  have "list_all2 (\<lambda>b x. databindingInto x = StringInterpolation) (findDatabindingInString ?text) new"
    by (rule list.rel_mono_strong[OF l]) (rule textNodeExpression_fields(2))
  with n show "\<exists>new. rs' = results @ new \<and>
      list_all2 (\<lambda>b x. databindingInto x = StringInterpolation) (findDatabindingInString ?text) new"
    by blast
qed

theorem databindingInto_attribute_iff_whole_value_witness:
  "(\<exists>x. extractDataBindingsFromAttr example_deps (element_node [])
          \<lparr>attr_name = ''value'', attr_value = ''{{foo}}''\<rparr> [] = Inr [x] \<and>
        databindingInto x = Attribute) \<and>
   (\<exists>y. extractDataBindingsFromTextNode example_deps (text_node ''Hello {{name}}!'') [] = Inr [y] \<and>
        databindingInto y = StringInterpolation)"
proof -
  let ?attr = "\<lparr>attr_name = ''value'', attr_value = ''{{foo}}''\<rparr>"
  let ?node = "text_node ''Hello {{name}}!''"
  have b: "findDatabindingInString (attr_value ?attr) =
     [\<lparr>rawExpressionText = ''foo'', startIndex = 2, endIndex = 5, rawDirection = CHR ''{''\<rparr>]"
    by code_simp
  have t: "findDatabindingInString (case node_value ?node of None \<Rightarrow> [] | Some v \<Rightarrow> v) =
     [\<lparr>rawExpressionText = ''name'', startIndex = 8, endIndex = 12, rawDirection = CHR ''{''\<rparr>]"
    by code_simp
  define x where "x = \<lparr>astNode = element_node [], attribute = Some \<lparr>attr_name = ''value'', attr_value = ''{{foo}}''\<rparr>,
          sourceRange = Some \<lparr>range_file = ''a.html'', range_start = \<lparr>line = 0, column = 2\<rparr>,
               range_end = \<lparr>line = 0, column = 5\<rparr>\<rparr>,
          warnings = [], direction = CHR ''{'', expressionText = ''foo'',
          expressionAst = ''foo'', databindingInto = Attribute, eventName = None\<rparr>"
  define y where "y = \<lparr>astNode = text_node ''Hello {{name}}!'', attribute = None,
          sourceRange = Some \<lparr>range_file = ''a.html'', range_start = \<lparr>line = 0, column = 8\<rparr>,
               range_end = \<lparr>line = 0, column = 12\<rparr>\<rparr>,
          warnings = [], direction = CHR ''{'', expressionText = ''name'',
          expressionAst = ''name'', databindingInto = StringInterpolation, eventName = None\<rparr>"
  have x: "extractDataBindingsFromAttr example_deps (element_node []) ?attr [] = Inr [x]"
    unfolding x_def by code_simp
  have y: "extractDataBindingsFromTextNode example_deps ?node [] = Inr [y]"
    unfolding y_def by code_simp
  from databindingInto_attribute_iff_whole_value[of example_deps "element_node []" ?attr "[]" "[x]"] x b
  have "databindingInto x = Attribute" by simp
  moreover from databindingInto_attribute_iff_whole_value[of example_deps ?node _ "[]" _ "[y]"] y t
  have "databindingInto y = StringInterpolation" by simp
  ultimately show ?thesis using x y by blast
qed


text \<open>
  C7 as stated fails in a text node. \<open>{{f(1)/*::*/}}\<close> there is a binding of direction
  \<open>{\<close> whose inner text \<open>f(1)/*::*/\<close> is an expression with a comment and contains
  \<open>::\<close>; its expression text stays the whole inner text and it has no event name. (The
  inner text \<open>a::b\<close> is no expression: in a text node the constructor's parser throws
  on it and the scan ends with that exception.) It also fails in an attribute value when a line
  terminator stands before the \<open>::\<close>: for the value \<open>{{a\<close>, line feed, \<open>b::c}}\<close> the
  expression text is \<open>b\<close>, not the part before \<open>::\<close>.
\<close>

theorem text_node_event_suffix_not_carved:
  "findDatabindingInString ''{{f(1)/*::*/}}'' =
     [\<lparr>rawExpressionText = ''f(1)/*::*/'', startIndex = 2, endIndex = 12,
       rawDirection = CHR ''{''\<rparr>] \<and>
   extractDataBindingsFromTextNode example_deps (text_node ''{{f(1)/*::*/}}'') [] =
    Inr [\<lparr>astNode = text_node ''{{f(1)/*::*/}}'', attribute = None,
          sourceRange = Some \<lparr>range_file = ''a.html'', range_start = \<lparr>line = 0, column = 2\<rparr>,
               range_end = \<lparr>line = 0, column = 12\<rparr>\<rparr>,
          warnings = [], direction = CHR ''{'', expressionText = ''f(1)/*::*/'',
          expressionAst = ''f(1)/*::*/'', databindingInto = StringInterpolation,
          eventName = None\<rparr>] \<and>
   extractDataBindingsFromAttr example_deps (element_node [])
      \<lparr>attr_name = ''value'', attr_value = ''{{a'' @ [CHR 0x0A] @ ''b::c}}''\<rparr> [] =
    Inr [\<lparr>astNode = element_node [],
          attribute = Some \<lparr>attr_name = ''value'',
                             attr_value = ''{{a'' @ [CHR 0x0A] @ ''b::c}}''\<rparr>,
          sourceRange = Some \<lparr>range_file = ''a.html'', range_start = \<lparr>line = 0, column = 2\<rparr>,
               range_end = \<lparr>line = 1, column = 4\<rparr>\<rparr>,
          warnings = [], direction = CHR ''{'', expressionText = ''b'',
          expressionAst = ''b'', databindingInto = Attribute, eventName = Some ''c''\<rparr>]"
  by code_simp


text \<open>
  C7, amended: in an attribute value, a binding of direction \<open>{\<close> whose inner text
  contains \<open>::\<close> and no line terminator has as expression text the part before the last
  \<open>::\<close> and as event name the part after it; without \<open>::\<close> the event name is undefined
  and the expression text is the inner text; so it is for every binding of direction
  \<open>[\<close>, and for every binding extracted from a text node, whatever its direction.
\<close>

theorem event_suffix_carved_in_attribute_values:
  "(extractDataBindingsFromAttr deps node attr results = Inr rs \<longrightarrow>
      (\<exists>new. rs = results @ new \<and>
         list_all2
           (\<lambda>b x.
              direction x = rawDirection b \<and>
              (rawDirection b = CHR ''{'' \<and> contains_sep (rawExpressionText b) \<and>
               (\<forall>c\<in>set (rawExpressionText b). \<not> isLineTerminator c) \<longrightarrow>
                 (\<exists>ev. eventName x = Some ev \<and>
                    rawExpressionText b = expressionText x @ ''::'' @ ev \<and>
                    (\<forall>j>length (expressionText x). \<not> occurs_at (rawExpressionText b) ''::'' j))) \<and>
              (rawDirection b = CHR ''{'' \<and> \<not> contains_sep (rawExpressionText b) \<longrightarrow>
                 eventName x = None \<and> expressionText x = rawExpressionText b) \<and>
              (rawDirection b = CHR ''['' \<longrightarrow>
                 eventName x = None \<and> expressionText x = rawExpressionText b))
           (findDatabindingInString (attr_value attr)) new)) \<and>
   (extractDataBindingsFromTextNode deps node results = Inr rs' \<longrightarrow>
      (\<exists>new. rs' = results @ new \<and>
         list_all2
           (\<lambda>b x. direction x = rawDirection b \<and> eventName x = None \<and>
                  expressionText x = rawExpressionText b)
           (findDatabindingInString (case node_value node of None \<Rightarrow> [] | Some v \<Rightarrow> v)) new))"
proof (intro conjI impI)
  let ?v = "attr_value attr"
  let ?P = "\<lambda>b x.
              direction x = rawDirection b \<and>
              (rawDirection b = CHR ''{'' \<and> contains_sep (rawExpressionText b) \<and>
               (\<forall>c\<in>set (rawExpressionText b). \<not> isLineTerminator c) \<longrightarrow>
                 (\<exists>ev. eventName x = Some ev \<and>
                    rawExpressionText b = expressionText x @ ''::'' @ ev \<and>
                    (\<forall>j>length (expressionText x). \<not> occurs_at (rawExpressionText b) ''::'' j))) \<and>
              (rawDirection b = CHR ''{'' \<and> \<not> contains_sep (rawExpressionText b) \<longrightarrow>
                 eventName x = None \<and> expressionText x = rawExpressionText b) \<and>
              (rawDirection b = CHR ''['' \<longrightarrow>
                 eventName x = None \<and> expressionText x = rawExpressionText b)"
  assume "extractDataBindingsFromAttr deps node attr results = Inr rs"
  from attr_results[OF this] obtain new r ao ni where n: "rs = results @ new"
    and l: "list_all2 (\<lambda>b x. attrExpression deps node attr r ao ni b = Inr x)
              (findDatabindingInString ?v) new" by blast
  have "list_all2 ?P (findDatabindingInString ?v) new"
  proof (rule list.rel_mono_strong[OF l])
    fix b x assume e: "attrExpression deps node attr r ao ni b = Inr x"
    note f = attrExpression_fields[OF e]
    let ?raw = "rawExpressionText b"
    have 1: "\<exists>ev. eventName x = Some ev \<and> ?raw = expressionText x @ ''::'' @ ev \<and>
                (\<forall>j>length (expressionText x). \<not> occurs_at ?raw ''::'' j)"
      if d: "rawDirection b = CHR ''{''" and c: "contains_sep ?raw"
        and nt: "\<forall>c\<in>set ?raw. \<not> isLineTerminator c"
    proof -
      from match_event_single_line[OF nt c] obtain k where
        m: "match_event ?raw = Some (take k ?raw, drop (k + 2) ?raw)"
        and o: "occurs_at ?raw ''::'' k" and last: "\<forall>j>k. \<not> occurs_at ?raw ''::'' j" by blast
      from f(3,4) d m have t: "expressionText x = take k ?raw" "eventName x = Some (drop (k + 2) ?raw)"
        by simp_all
      from occurs_at_length[OF o] have "k \<le> length ?raw" by simp
      with t have "length (expressionText x) = k" by simp
      with t take_sep_drop[OF o] last show ?thesis by simp
    qed
    have 2: "eventName x = None \<and> expressionText x = ?raw"
      if "rawDirection b = CHR ''{''" "\<not> contains_sep ?raw"
      using f(3,4) that match_event_None by simp
    have 3: "eventName x = None \<and> expressionText x = ?raw" if "rawDirection b = CHR ''[''"
      using f(3,4) that by simp
    from f(1) 1 2 3 show "?P b x" by blast
  qed
  with n show "\<exists>new. rs = results @ new \<and> list_all2 ?P (findDatabindingInString ?v) new"
    by blast
next
  let ?text = "case node_value node of None \<Rightarrow> [] | Some v \<Rightarrow> v"
  let ?Q = "\<lambda>b x. direction x = rawDirection b \<and> eventName x = None \<and>
                  expressionText x = rawExpressionText b"
  assume "extractDataBindingsFromTextNode deps node results = Inr rs'"
  from text_results[OF this] obtain new r off ni where n: "rs' = results @ new"
    and l: "list_all2 (\<lambda>b x. textNodeExpression deps node r off ni b = Inr x)
              (findDatabindingInString ?text) new" by blast
  have "list_all2 ?Q (findDatabindingInString ?text) new"
  proof (rule list.rel_mono_strong[OF l])
    fix b x assume e: "textNodeExpression deps node r off ni b = Inr x"
    from textNodeExpression_fields[OF e] show "?Q b x" by simp
  qed
  with n show "\<exists>new. rs' = results @ new \<and> list_all2 ?Q (findDatabindingInString ?text) new"
    by blast
qed

theorem event_suffix_carved_in_attribute_values_witness:
  "(\<exists>x ev. extractDataBindingsFromAttr example_deps (element_node [])
          \<lparr>attr_name = ''value'', attr_value = ''{{foo::bar}}''\<rparr> [] = Inr [x] \<and>
        eventName x = Some ev \<and> ''foo::bar'' = expressionText x @ ''::'' @ ev) \<and>
   (\<exists>y. extractDataBindingsFromTextNode example_deps (text_node ''{{f(1)/*::*/}}'') [] = Inr [y] \<and>
        eventName y = None \<and> expressionText y = ''f(1)/*::*/'')"
proof -
  let ?attr = "\<lparr>attr_name = ''value'', attr_value = ''{{foo::bar}}''\<rparr>"
  let ?node = "text_node ''{{f(1)/*::*/}}''"
  let ?b = "\<lparr>rawExpressionText = ''foo::bar'', startIndex = 2, endIndex = 10, rawDirection = CHR ''{''\<rparr>"
  have b: "findDatabindingInString (attr_value ?attr) = [?b]"
    by code_simp
  have h: "rawDirection ?b = CHR ''{'' \<and> contains_sep (rawExpressionText ?b) \<and>
      (\<forall>c\<in>set (rawExpressionText ?b). \<not> isLineTerminator c)"
    by code_simp
  have t: "findDatabindingInString (case node_value ?node of None \<Rightarrow> [] | Some v \<Rightarrow> v) =
     [\<lparr>rawExpressionText = ''f(1)/*::*/'', startIndex = 2, endIndex = 12,
       rawDirection = CHR ''{''\<rparr>]"
    by code_simp
  define x where "x = \<lparr>astNode = element_node [], attribute = Some \<lparr>attr_name = ''value'', attr_value = ''{{foo::bar}}''\<rparr>,
          sourceRange = Some \<lparr>range_file = ''a.html'', range_start = \<lparr>line = 0, column = 2\<rparr>,
               range_end = \<lparr>line = 0, column = 10\<rparr>\<rparr>,
          warnings = [], direction = CHR ''{'', expressionText = ''foo'',
          expressionAst = ''foo'', databindingInto = Attribute, eventName = Some ''bar''\<rparr>"
  define y where "y = \<lparr>astNode = text_node ''{{f(1)/*::*/}}'', attribute = None,
          sourceRange = Some \<lparr>range_file = ''a.html'', range_start = \<lparr>line = 0, column = 2\<rparr>,
               range_end = \<lparr>line = 0, column = 12\<rparr>\<rparr>,
          warnings = [], direction = CHR ''{'', expressionText = ''f(1)/*::*/'',
          expressionAst = ''f(1)/*::*/'', databindingInto = StringInterpolation, eventName = None\<rparr>"
  have x: "extractDataBindingsFromAttr example_deps (element_node []) ?attr [] = Inr [x]"
    unfolding x_def by code_simp
  have y: "extractDataBindingsFromTextNode example_deps ?node [] = Inr [y]"
    unfolding y_def by code_simp
  from event_suffix_carved_in_attribute_values[of example_deps "element_node []" ?attr "[]" "[x]"] x b h
  have "\<exists>ev. eventName x = Some ev \<and> ''foo::bar'' = expressionText x @ ''::'' @ ev"
    by simp blast
  moreover from event_suffix_carved_in_attribute_values[of example_deps ?node _ "[]" _ "[y]"] y t
  have "eventName y = None \<and> expressionText y = ''f(1)/*::*/''" by simp
  ultimately show ?thesis using x y by blast
qed

section \<open>The file system loader (src/url-loader/fs-url-loader.ts)\<close>

text \<open>
  The fields of the object returned by Node's \<open>url.parse\<close> that the loader reads;
  \<open>None\<close> is \<open>null\<close>. Node gives \<open>protocol\<close> with its colon (\<open>file:\<close>, \<open>http:\<close>).
\<close>

record Url =
  protocol :: "string option"
  hostname :: "string option"
  pathname :: "string option"

text \<open>\<open>!urlObject.hostname\<close>: the host name is \<open>null\<close> or empty.\<close>

definition falsy :: "string option \<Rightarrow> bool" where
  "falsy v = (v = None \<or> v = Some [])"

text \<open>\<open>_isValid\<close>.\<close>

definition isValid :: "Url \<Rightarrow> string \<Rightarrow> bool" where
  "isValid urlObject path =
     ((protocol urlObject = Some ''file'' \<or> falsy (hostname urlObject)) \<and>
      \<not> startsWith path ''../'')"

text \<open>
  \<open>canLoad\<close>, over the library functions it calls: \<open>url.parse\<close>,
  \<open>decodeURIComponent\<close> (\<open>None\<close> when it throws \<open>URIError\<close>) and \<open>path.normalize\<close>.
\<close>

record NodeLib =
  parseUrl :: "string \<Rightarrow> Url"
  decodeURIComponent :: "string \<Rightarrow> string option"
  normalize :: "string \<Rightarrow> string"

datatype uri_error = URIError

definition canLoad :: "NodeLib \<Rightarrow> string \<Rightarrow> uri_error + bool" where
  "canLoad lib u =
     (let urlObject = parseUrl lib u
      in case decodeURIComponent lib
                (case pathname urlObject of None \<Rightarrow> [] | Some p \<Rightarrow> p) of
           None \<Rightarrow> Inl URIError
         | Some decoded \<Rightarrow> Inr (isValid urlObject (normalize lib decoded)))"

text \<open>
  What \<open>url.parse\<close> gives for \<open>file://localhost/a.html\<close>, for \<open>file:///a.html\<close> and for
  \<open>/a.html\<close>.
\<close>

definition file_url_with_host :: Url where
  "file_url_with_host =
     \<lparr>protocol = Some ''file:'', hostname = Some ''localhost'', pathname = Some ''/a.html''\<rparr>"

definition file_url_without_host :: Url where
  "file_url_without_host =
     \<lparr>protocol = Some ''file:'', hostname = Some [], pathname = Some ''/a.html''\<rparr>"

definition bare_path_url :: Url where
  "bare_path_url = \<lparr>protocol = None, hostname = None, pathname = Some ''/a.html''\<rparr>"

text \<open>
  C9: the claim says that a URL of scheme \<open>file:\<close> whose path stays inside the root can
  be loaded. The code compares the protocol with \<open>file\<close>, which no parsed URL has (the
  parsed protocol ends with a colon), so a \<open>file:\<close> URL with a host is refused, while the
  same path with no host is accepted.
\<close>

theorem file_url_with_host_is_refused:
  "isValid file_url_with_host ''/a.html'' = False \<and>
   isValid file_url_without_host ''/a.html'' = True \<and>
   isValid bare_path_url ''/a.html'' = True \<and>
   isValid bare_path_url ''../a.html'' = False"
  by (simp add: isValid_def falsy_def startsWith_def file_url_with_host_def
      file_url_without_host_def bare_path_url_def)

lemma isValid_parsed_protocol:
  "protocol urlObject = Some (scheme @ '':'') \<Longrightarrow>
     isValid urlObject path = (falsy (hostname urlObject) \<and> \<not> startsWith path ''../'')"
  by (auto simp add: isValid_def)

section \<open>Documents and their features (src/model/document.ts, src/model/import.ts)\<close>

subsection \<open>Objects\<close>

text \<open>
  Documents are shared and the import graph may be cyclic, so objects live in a heap and
  are named by references; a JavaScript \<open>Set\<close> of features is the list of their
  references in insertion order, a \<open>Map\<close> is an association list in insertion order.
  A feature's \<open>kinds\<close> and \<open>identifiers\<close> never change: a plain feature carries them,
  the constructors of \<open>Import\<close> and \<open>Document\<close> compute them.
\<close>

type_synonym ref = nat

record Feature =
  kinds :: "string list"
  identifiers :: "string list"

record Import =
  import_type :: string
  import_url :: string
  document :: ref

text \<open>
  A scanned feature of a document. \<open>resolve\<close> of a resolvable feature is given by what
  it does to documents: the documents on which it calls \<open>Document.resolve\<close> (itself or
  through the analyzer), in order, and then the exception it throws or the feature it
  returns (\<open>None\<close> for \<open>undefined\<close>).
\<close>

record ScannedFeature =
  resolvable :: bool
  resolve_calls :: "ref list"
  resolve_result :: "js_error + ref option"

record Document =
  doc_url :: string
  isInline :: bool
  doc_type :: string
  scannedFeatures :: "ScannedFeature list"
  localFeatures :: "ref list"
  begunResolving :: bool
  doneResolving :: bool
  featuresByKind :: "(string \<times> ref list) list option"
  featuresByKindAndId :: "(string \<times> (string \<times> ref list) list) list option"

datatype obj = Plain Feature | Imp Import | Doc Document

type_synonym heap = "obj list"

text \<open>
  The outcome of a call that may call itself through other objects: \<open>None\<close> when it
  does not return within the nesting depth it is given, an exception, or a value.
\<close>

type_synonym 'a outcome = "(js_error + 'a) option"

text \<open>\<open>Set.add\<close>, \<open>Map.get\<close> and \<open>Map.set\<close>.\<close>

definition set_add :: "'a \<Rightarrow> 'a list \<Rightarrow> 'a list" where
  "set_add x xs = (if x \<in> set xs then xs else xs @ [x])"

fun map_set :: "('k \<times> 'v) list \<Rightarrow> 'k \<Rightarrow> 'v \<Rightarrow> ('k \<times> 'v) list" where
  "map_set [] k v = [(k, v)]"
| "map_set ((k', v') # m) k v = (if k' = k then (k, v) # m else (k', v') # map_set m k v)"

definition get_or_empty :: "('k \<times> 'v list) list \<Rightarrow> 'k \<Rightarrow> 'v list" where
  "get_or_empty m k = (case map_of m k of None \<Rightarrow> [] | Some v \<Rightarrow> v)"

definition deref :: "heap \<Rightarrow> ref \<Rightarrow> obj option" where
  "deref h r = (if r < length h then Some (h ! r) else None)"

definition doc_at :: "heap \<Rightarrow> ref \<Rightarrow> Document option" where
  "doc_at h r = (case deref h r of Some (Doc d) \<Rightarrow> Some d | _ \<Rightarrow> None)"

definition put_doc :: "heap \<Rightarrow> ref \<Rightarrow> Document \<Rightarrow> heap" where
  "put_doc h r d = h[r := Doc d]"

text \<open>
  \<open>kinds\<close>: \<open>new Set(['import'])\<close> with \<open>this.type\<close> added, and \<open>new Set(['document'])\<close>
  with the parsed document's type and \<open>-document\<close> added. \<open>identifiers\<close>: none for an
  import, the URL for a document that is not inline.
\<close>

definition kinds_of :: "obj \<Rightarrow> string list" where
  "kinds_of ob =
     (case ob of
        Plain f \<Rightarrow> kinds f
      | Imp i \<Rightarrow> set_add (import_type i) [''import'']
      | Doc d \<Rightarrow> set_add (doc_type d @ ''-document'') [''document''])"

definition identifiers_of :: "obj \<Rightarrow> string list" where
  "identifiers_of ob =
     (case ob of
        Plain f \<Rightarrow> identifiers f
      | Imp i \<Rightarrow> []
      | Doc d \<Rightarrow> (if isInline d then [] else [doc_url d]))"

text \<open>\<open>(feature as Import).document\<close>; \<open>None\<close> when the object has no such field.\<close>

definition import_document :: "heap \<Rightarrow> ref \<Rightarrow> ref option" where
  "import_document h r = (case deref h r of Some (Imp i) \<Rightarrow> Some (document i) | _ \<Rightarrow> None)"

subsection \<open>Adding and indexing features\<close>

text \<open>The two loops of \<open>_indexFeature\<close>, inner first.\<close>

definition index_id ::
  "ref \<Rightarrow> string \<Rightarrow> (string \<times> (string \<times> ref list) list) list \<Rightarrow> string \<Rightarrow>
   (string \<times> (string \<times> ref list) list) list" where
  "index_id feature kind byKindAndId ident =
     (let identifiersMap = get_or_empty byKindAndId kind;
          idSet = get_or_empty identifiersMap ident
      in map_set byKindAndId kind (map_set identifiersMap ident (set_add feature idSet)))"

definition index_kind ::
  "ref \<Rightarrow> string list \<Rightarrow>
   (string \<times> ref list) list \<times> (string \<times> (string \<times> ref list) list) list \<Rightarrow> string \<Rightarrow>
   (string \<times> ref list) list \<times> (string \<times> (string \<times> ref list) list) list" where
  "index_kind feature idents st kind =
     (case st of (byKind, byKindAndId) \<Rightarrow>
        (map_set byKind kind (set_add feature (get_or_empty byKind kind)),
         fold (\<lambda>ident m. index_id feature kind m ident) idents byKindAndId))"

definition indexFeature :: "heap \<Rightarrow> Document \<Rightarrow> ref \<Rightarrow> js_error + Document" where
  "indexFeature h d feature =
     (case (featuresByKind d, featuresByKindAndId d) of
        (Some byKind, Some byKindAndId) \<Rightarrow>
          (case deref h feature of
             None \<Rightarrow> Inl TypeError
           | Some ob \<Rightarrow>
               (case fold (\<lambda>kind st. index_kind feature (identifiers_of ob) st kind)
                       (kinds_of ob) (byKind, byKindAndId) of
                  (byKind', byKindAndId') \<Rightarrow>
                    Inr (d\<lparr>featuresByKind := Some byKind',
                           featuresByKindAndId := Some byKindAndId'\<rparr>)))
      | _ \<Rightarrow> Inr d)"

text \<open>\<open>_addFeature\<close>.\<close>

definition addFeature :: "heap \<Rightarrow> ref \<Rightarrow> ref \<Rightarrow> js_error + heap" where
  "addFeature h this feature =
     (case doc_at h this of
        None \<Rightarrow> Inl TypeError
      | Some d \<Rightarrow>
          if doneResolving d
          then Inl (Error ''_addFeature can not be called after _resolve()'')
          else (case indexFeature h d feature of
                  Inl e \<Rightarrow> Inl e
                | Inr d' \<Rightarrow>
                    Inr (put_doc h this
                           (d'\<lparr>localFeatures := set_add feature (localFeatures d')\<rparr>))))"

subsection \<open>Walking the documents\<close>

text \<open>
  \<open>_getFeatures(result, visited, deep)\<close>. \<open>call\<close> stands for the call of
  \<open>_getFeatures\<close> on another document; the state is \<open>(result, visited)\<close>.
\<close>

fun getFeatures_loop ::
  "(ref \<Rightarrow> ref list \<times> ref list \<Rightarrow> (ref list \<times> ref list) outcome) \<Rightarrow> heap \<Rightarrow> bool \<Rightarrow>
   ref list \<Rightarrow> ref list \<times> ref list \<Rightarrow> (ref list \<times> ref list) outcome" where
  "getFeatures_loop call h deep [] st = Some (Inr st)"
| "getFeatures_loop call h deep (feature # rest) (result, visited) =
     (if deep then
        (case deref h feature of
           None \<Rightarrow> Some (Inl TypeError)
         | Some ob \<Rightarrow>
             (case (if ''document'' \<in> set (kinds_of ob)
                    then call feature (set_add feature result, visited)
                    else Some (Inr (set_add feature result, visited))) of
                None \<Rightarrow> None
              | Some (Inl e) \<Rightarrow> Some (Inl e)
              | Some (Inr st1) \<Rightarrow>
                  (case (if ''import'' \<in> set (kinds_of ob)
                         then (case import_document h feature of
                                 None \<Rightarrow> Some (Inl TypeError)
                               | Some target \<Rightarrow> call target st1)
                         else Some (Inr st1)) of
                     None \<Rightarrow> None
                   | Some (Inl e) \<Rightarrow> Some (Inl e)
                   | Some (Inr st2) \<Rightarrow> getFeatures_loop call h deep rest st2)))
      else getFeatures_loop call h deep rest (set_add feature result, visited))"

definition getFeatures_body ::
  "(ref \<Rightarrow> ref list \<times> ref list \<Rightarrow> (ref list \<times> ref list) outcome) \<Rightarrow> heap \<Rightarrow> bool \<Rightarrow>
   ref \<Rightarrow> ref list \<times> ref list \<Rightarrow> (ref list \<times> ref list) outcome" where
  "getFeatures_body call h deep this st =
     (case doc_at h this of
        None \<Rightarrow> Some (Inl TypeError)
      | Some d \<Rightarrow>
          (case st of (result, visited) \<Rightarrow>
             if this \<in> set visited then Some (Inr st)
             else getFeatures_loop call h deep (localFeatures d)
                    (result, set_add this visited)))"

text \<open>\<open>_getFeatures\<close> with calls nested at most \<open>n\<close> deep.\<close>

primrec getFeatures_depth ::
  "nat \<Rightarrow> heap \<Rightarrow> bool \<Rightarrow> ref \<Rightarrow> ref list \<times> ref list \<Rightarrow> (ref list \<times> ref list) outcome" where
  "getFeatures_depth 0 h deep = getFeatures_body (\<lambda>t st. None) h deep"
| "getFeatures_depth (Suc n) h deep = getFeatures_body (getFeatures_depth n h deep) h deep"

text \<open>\<open>getFeatures(deep)\<close>.\<close>

definition getFeatures :: "nat \<Rightarrow> heap \<Rightarrow> ref \<Rightarrow> bool \<Rightarrow> (ref list) outcome" where
  "getFeatures n h this deep =
     (case getFeatures_depth n h deep this ([], []) of
        None \<Rightarrow> None
      | Some (Inl e) \<Rightarrow> Some (Inl e)
      | Some (Inr (result, visited)) \<Rightarrow> Some (Inr result))"

text \<open>
  \<open>_getByKind(kind, documentsWalked)\<close>. \<open>call\<close> stands for the call of \<open>_getByKind\<close>
  on another document, which returns its own result set and the documents walked;
  \<open>visit_document\<close> is the block \<open>if (!documentsWalked.has(document)) { ... }\<close>.
\<close>

definition visit_document ::
  "(ref \<Rightarrow> ref list \<Rightarrow> (ref list \<times> ref list) outcome) \<Rightarrow> ref \<Rightarrow> ref list \<times> ref list \<Rightarrow>
   (ref list \<times> ref list) outcome" where
  "visit_document call target st =
     (case st of (result, walked) \<Rightarrow>
        if target \<notin> set walked
        then (case call target walked of
                None \<Rightarrow> None
              | Some (Inl e) \<Rightarrow> Some (Inl e)
              | Some (Inr (sub, walked')) \<Rightarrow> Some (Inr (fold set_add sub result, walked')))
        else Some (Inr st))"

fun getByKind_loop ::
  "(ref \<Rightarrow> ref list \<Rightarrow> (ref list \<times> ref list) outcome) \<Rightarrow> heap \<Rightarrow> string \<Rightarrow>
   ref list \<Rightarrow> ref list \<times> ref list \<Rightarrow> (ref list \<times> ref list) outcome" where
  "getByKind_loop call h kind [] st = Some (Inr st)"
| "getByKind_loop call h kind (feature # rest) (result, walked) =
     (case deref h feature of
        None \<Rightarrow> Some (Inl TypeError)
      | Some ob \<Rightarrow>
          (case (if ''import'' \<in> set (kinds_of ob)
                 then (case import_document h feature of
                         None \<Rightarrow> Some (Inl TypeError)
                       | Some target \<Rightarrow>
                           visit_document call target
                             (if kind \<in> set (kinds_of ob) then set_add feature result else result,
                              walked))
                 else Some (Inr (if kind \<in> set (kinds_of ob) then set_add feature result
                                 else result, walked))) of
             None \<Rightarrow> None
           | Some (Inl e) \<Rightarrow> Some (Inl e)
           | Some (Inr st1) \<Rightarrow>
               (case (if ''document'' \<in> set (kinds_of ob)
                      then visit_document call feature st1
                      else Some (Inr st1)) of
                  None \<Rightarrow> None
                | Some (Inl e) \<Rightarrow> Some (Inl e)
                | Some (Inr st2) \<Rightarrow> getByKind_loop call h kind rest st2)))"

definition getByKind_body ::
  "(ref \<Rightarrow> ref list \<Rightarrow> (ref list \<times> ref list) outcome) \<Rightarrow> heap \<Rightarrow> string \<Rightarrow>
   ref \<Rightarrow> ref list \<Rightarrow> (ref list \<times> ref list) outcome" where
  "getByKind_body call h kind this documentsWalked =
     (case doc_at h this of
        None \<Rightarrow> Some (Inl TypeError)
      | Some d \<Rightarrow>
          getByKind_loop call h kind (localFeatures d) ([], set_add this documentsWalked))"

primrec getByKind_depth ::
  "nat \<Rightarrow> heap \<Rightarrow> string \<Rightarrow> ref \<Rightarrow> ref list \<Rightarrow> (ref list \<times> ref list) outcome" where
  "getByKind_depth 0 h kind = getByKind_body (\<lambda>t w. None) h kind"
| "getByKind_depth (Suc n) h kind = getByKind_body (getByKind_depth n h kind) h kind"

subsection \<open>Queries and the indexes\<close>

text \<open>\<open>for (const feature of this.getFeatures()) this._indexFeature(feature)\<close>.\<close>

fun index_all :: "heap \<Rightarrow> ref \<Rightarrow> ref list \<Rightarrow> js_error + heap" where
  "index_all h this [] = Inr h"
| "index_all h this (feature # rest) =
     (case doc_at h this of
        None \<Rightarrow> Inl TypeError
      | Some d \<Rightarrow>
          (case indexFeature h d feature of
             Inl e \<Rightarrow> Inl e
           | Inr d' \<Rightarrow> index_all (put_doc h this d') this rest))"

text \<open>\<open>_buildIndexes\<close>, with \<open>_initIndexes\<close> written out.\<close>

definition buildIndexes :: "nat \<Rightarrow> heap \<Rightarrow> ref \<Rightarrow> heap outcome" where
  "buildIndexes n h this =
     (case doc_at h this of
        None \<Rightarrow> Some (Inl TypeError)
      | Some d \<Rightarrow>
          if featuresByKind d \<noteq> None
          then Some (Inl (Error ''Tried to build indexes multiple times. This should never happen.''))
          else if \<not> doneResolving d
          then Some (Inl (Error (''Tried to build indexes before finished resolving. '' @
                                 ''Need to wait until afterwards or the indexes would be incomplete.'')))
          else (case getFeatures n
                       (put_doc h this (d\<lparr>featuresByKind := Some [], featuresByKindAndId := Some []\<rparr>))
                       this True of
                  None \<Rightarrow> None
                | Some (Inl e) \<Rightarrow> Some (Inl e)
                | Some (Inr features) \<Rightarrow>
                    Some (index_all
                            (put_doc h this
                               (d\<lparr>featuresByKind := Some [], featuresByKindAndId := Some []\<rparr>))
                            this features)))"

lemma doc_at_put_doc:
  "doc_at h this = Some d \<Longrightarrow> doc_at (put_doc h this d') r = (if r = this then Some d' else doc_at h r)"
  by (auto simp add: doc_at_def put_doc_def deref_def split: option.splits obj.splits)

lemma indexFeature_index:
  "indexFeature h d feature = Inr d' \<Longrightarrow>
     (featuresByKind d' = None \<longleftrightarrow> featuresByKind d = None) \<and>
     (featuresByKindAndId d' = None \<longleftrightarrow> featuresByKindAndId d = None) \<and>
     doneResolving d' = doneResolving d \<and> begunResolving d' = begunResolving d \<and>
     localFeatures d' = localFeatures d \<and> scannedFeatures d' = scannedFeatures d"
  by (auto simp add: indexFeature_def split: option.splits prod.splits)

lemma index_all_index:
  "index_all h this features = Inr h' \<Longrightarrow> doc_at h this = Some d \<Longrightarrow>
     \<exists>d'. doc_at h' this = Some d' \<and>
       (featuresByKind d' = None \<longleftrightarrow> featuresByKind d = None) \<and>
       (featuresByKindAndId d' = None \<longleftrightarrow> featuresByKindAndId d = None) \<and>
       doneResolving d' = doneResolving d"
proof (induction features arbitrary: h d)
  case Nil
  then show ?case by simp
next
  case (Cons feature rest)
  from Cons.prems obtain d1 where i: "indexFeature h d feature = Inr d1"
    and r: "index_all (put_doc h this d1) this rest = Inr h'"
    by (auto split: sum.splits)
  from Cons.prems(2) have "doc_at (put_doc h this d1) this = Some d1"
    by (simp add: doc_at_put_doc)
  from Cons.IH[OF r this] indexFeature_index[OF i] show ?case by auto
qed

lemma buildIndexes_index:
  assumes "buildIndexes n h this = Some (Inr h')"
  shows "\<exists>d'. doc_at h' this = Some d' \<and> featuresByKind d' \<noteq> None \<and>
           featuresByKindAndId d' \<noteq> None \<and> doneResolving d'"
proof -
  from assms obtain d where d: "doc_at h this = Some d"
    by (auto simp add: buildIndexes_def split: option.splits)
  let ?d1 = "d\<lparr>featuresByKind := Some [], featuresByKindAndId := Some []\<rparr>"
  from assms d have dn: "doneResolving d"
    by (auto simp add: buildIndexes_def split: option.splits if_splits)
  from assms d obtain features where "index_all (put_doc h this ?d1) this features = Inr h'"
    by (auto simp add: buildIndexes_def split: option.splits if_splits sum.splits)
  moreover from d have "doc_at (put_doc h this ?d1) this = Some ?d1" by (simp add: doc_at_put_doc)
  ultimately show ?thesis using index_all_index dn by fastforce
qed

text \<open>\<open>getByKind\<close>; after \<open>_buildIndexes\<close> it calls itself and finds the index.\<close>

function getByKind :: "nat \<Rightarrow> heap \<Rightarrow> ref \<Rightarrow> string \<Rightarrow> (ref list \<times> heap) outcome" where
  "getByKind n h this kind =
     (case doc_at h this of
        None \<Rightarrow> Some (Inl TypeError)
      | Some d \<Rightarrow>
          (case featuresByKind d of
             Some byKind \<Rightarrow> Some (Inr (get_or_empty byKind kind, h))
           | None \<Rightarrow>
               if doneResolving d
               then (case buildIndexes n h this of
                       None \<Rightarrow> None
                     | Some (Inl e) \<Rightarrow> Some (Inl e)
                     | Some (Inr h') \<Rightarrow> getByKind n h' this kind)
               else (case getByKind_depth n h kind this [] of
                       None \<Rightarrow> None
                     | Some (Inl e) \<Rightarrow> Some (Inl e)
                     | Some (Inr (result, walked)) \<Rightarrow> Some (Inr (result, h)))))"
  by pat_completeness auto
termination
proof (relation "measure (\<lambda>(n, h, this, kind).
          case doc_at h this of
            None \<Rightarrow> 0
          | Some d \<Rightarrow> (if featuresByKind d = None then 1 else 0))", goal_cases)
  case 1
  show ?case by simp
next
  case (2 n h this kind d r h')
  from 2(4,5) have "buildIndexes n h this = Some (Inr h')" by simp
  from buildIndexes_index[OF this] 2(1,2) show ?case by auto
qed

declare getByKind.simps [simp del]

text \<open>
  \<open>getById\<close>. Without an index it filters \<open>getByKind(kind)\<close> by
  \<open>featureOfKind.identifiers.has(identifier)\<close>.
\<close>

fun filter_by_id :: "heap \<Rightarrow> string \<Rightarrow> ref list \<Rightarrow> ref list \<Rightarrow> js_error + ref list" where
  "filter_by_id h ident [] result = Inr result"
| "filter_by_id h ident (featureOfKind # rest) result =
     (case deref h featureOfKind of
        None \<Rightarrow> Inl TypeError
      | Some ob \<Rightarrow>
          filter_by_id h ident rest
            (if ident \<in> set (identifiers_of ob) then set_add featureOfKind result else result))"

function getById :: "nat \<Rightarrow> heap \<Rightarrow> ref \<Rightarrow> string \<Rightarrow> string \<Rightarrow> (ref list \<times> heap) outcome" where
  "getById n h this kind ident =
     (case doc_at h this of
        None \<Rightarrow> Some (Inl TypeError)
      | Some d \<Rightarrow>
          (case featuresByKindAndId d of
             Some byKindAndId \<Rightarrow>
               Some (Inr (get_or_empty (get_or_empty byKindAndId kind) ident, h))
           | None \<Rightarrow>
               if doneResolving d
               then (case buildIndexes n h this of
                       None \<Rightarrow> None
                     | Some (Inl e) \<Rightarrow> Some (Inl e)
                     | Some (Inr h') \<Rightarrow> getById n h' this kind ident)
               else (case getByKind n h this kind of
                       None \<Rightarrow> None
                     | Some (Inl e) \<Rightarrow> Some (Inl e)
                     | Some (Inr (ofKind, h')) \<Rightarrow>
                         (case filter_by_id h' ident ofKind [] of
                            Inl e \<Rightarrow> Some (Inl e)
                          | Inr result \<Rightarrow> Some (Inr (result, h'))))))"
  by pat_completeness auto
termination
proof (relation "measure (\<lambda>(n, h, this, kind, ident).
          case doc_at h this of
            None \<Rightarrow> 0
          | Some d \<Rightarrow> (if featuresByKindAndId d = None then 1 else 0))", goal_cases)
  case 1
  show ?case by simp
next
  case (2 n h this kind ident d r h')
  from 2(4,5) have "buildIndexes n h this = Some (Inr h')" by simp
  from buildIndexes_index[OF this] 2(1,2) show ?case by auto
qed

declare getById.simps [simp del]

text \<open>Decimal digits of a number, for the message of \<open>getOnlyAtId\<close>.\<close>

fun decimal :: "nat \<Rightarrow> string" where
  "decimal n =
     (if n < 10 then [char_of (48 + n)]
      else decimal (n div 10) @ [char_of (48 + n mod 10)])"

declare decimal.simps [simp del]

text \<open>\<open>getOnlyAtId\<close>; \<open>None\<close> in the result is \<open>undefined\<close>.\<close>

definition getOnlyAtId ::
  "nat \<Rightarrow> heap \<Rightarrow> ref \<Rightarrow> string \<Rightarrow> string \<Rightarrow> (ref option \<times> heap) outcome" where
  "getOnlyAtId n h this kind ident =
     (case getById n h this kind ident of
        None \<Rightarrow> None
      | Some (Inl e) \<Rightarrow> Some (Inl e)
      | Some (Inr (results, h')) \<Rightarrow>
          if length results > 1
          then Some (Inl (Error (''Expected to find at most one '' @ kind @ '' with id '' @ ident @
                                 '' but found '' @ decimal (length results) @ ''.'')))
          else Some (Inr (case results of [] \<Rightarrow> None | first # _ \<Rightarrow> Some first, h')))"

subsection \<open>Resolving a document\<close>

text \<open>
  \<open>Document.resolve\<close>. \<open>call\<close> stands for a call of \<open>Document.resolve\<close> made while this
  one runs; \<open>run_calls\<close> and the result of the scanned feature are
  \<open>scannedFeature.resolve(this)\<close>. The lines that log to the console are left out.
\<close>

fun run_calls :: "(heap \<Rightarrow> ref \<Rightarrow> heap outcome) \<Rightarrow> heap \<Rightarrow> ref list \<Rightarrow> heap outcome" where
  "run_calls call h [] = Some (Inr h)"
| "run_calls call h (target # rest) =
     (case call h target of
        None \<Rightarrow> None
      | Some (Inl e) \<Rightarrow> Some (Inl e)
      | Some (Inr h') \<Rightarrow> run_calls call h' rest)"

fun resolve_loop ::
  "(heap \<Rightarrow> ref \<Rightarrow> heap outcome) \<Rightarrow> heap \<Rightarrow> ref \<Rightarrow> ScannedFeature list \<Rightarrow> heap outcome" where
  "resolve_loop call h this [] = Some (Inr h)"
| "resolve_loop call h this (scannedFeature # rest) =
     (if resolvable scannedFeature
      then (case run_calls call h (resolve_calls scannedFeature) of
              None \<Rightarrow> None
            | Some (Inl e) \<Rightarrow> Some (Inl e)
            | Some (Inr h1) \<Rightarrow>
                (case resolve_result scannedFeature of
                   Inl e \<Rightarrow> Some (Inl e)
                 | Inr None \<Rightarrow> resolve_loop call h1 this rest
                 | Inr (Some feature) \<Rightarrow>
                     (case addFeature h1 this feature of
                        Inl e \<Rightarrow> Some (Inl e)
                      | Inr h2 \<Rightarrow> resolve_loop call h2 this rest)))
      else resolve_loop call h this rest)"

definition resolve_body :: "(heap \<Rightarrow> ref \<Rightarrow> heap outcome) \<Rightarrow> heap \<Rightarrow> ref \<Rightarrow> heap outcome" where
  "resolve_body call h this =
     (case doc_at h this of
        None \<Rightarrow> Some (Inl TypeError)
      | Some d \<Rightarrow>
          if doneResolving d then Some (Inl (Error ''resolve can only be called once''))
          else if begunResolving d then Some (Inr h)
          else (case addFeature (put_doc h this (d\<lparr>begunResolving := True\<rparr>)) this this of
                  Inl e \<Rightarrow> Some (Inl e)
                | Inr h1 \<Rightarrow>
                    (case resolve_loop call h1 this (scannedFeatures d) of
                       None \<Rightarrow> None
                     | Some (Inl e) \<Rightarrow> Some (Inl e)
                     | Some (Inr h2) \<Rightarrow>
                         (case doc_at h2 this of
                            None \<Rightarrow> Some (Inl TypeError)
                          | Some d2 \<Rightarrow>
                              Some (Inr (put_doc h2 this (d2\<lparr>doneResolving := True\<rparr>)))))))"

text \<open>\<open>Document.resolve\<close> with calls nested at most \<open>n\<close> deep.\<close>

primrec resolve :: "nat \<Rightarrow> heap \<Rightarrow> ref \<Rightarrow> heap outcome" where
  "resolve 0 = resolve_body (\<lambda>h t. None)"
| "resolve (Suc n) = resolve_body (resolve n)"


subsection \<open>The walks return\<close>

text \<open>
  \<open>unvisited h visited\<close> counts the documents of the heap that are not in \<open>visited\<close>.
  A walk given that much nesting depth returns: every nested call that does more than
  look at \<open>visited\<close> adds a document to it.
\<close>

definition docs :: "heap \<Rightarrow> ref set" where
  "docs h = {r. doc_at h r \<noteq> None}"

definition unvisited :: "heap \<Rightarrow> ref list \<Rightarrow> nat" where
  "unvisited h visited = card (docs h - set visited)"

lemma docs_bound: "docs h \<subseteq> {..<length h}"
  by (auto simp add: docs_def doc_at_def deref_def split: if_splits)

lemma finite_docs: "finite (docs h)"
  using docs_bound finite_subset by blast

lemma unvisited_le_length: "unvisited h visited \<le> length h"
proof -
  have "card (docs h - set visited) \<le> card (docs h)"
    by (rule card_mono[OF finite_docs]) blast
  also have "\<dots> \<le> card {..<length h}" by (rule card_mono[OF _ docs_bound]) simp
  finally show ?thesis by (simp add: unvisited_def)
qed

lemma unvisited_mono: "set v \<subseteq> set v' \<Longrightarrow> unvisited h v' \<le> unvisited h v"
  unfolding unvisited_def by (rule card_mono) (auto simp add: finite_docs)

lemma unvisited_add:
  assumes "doc_at h this \<noteq> None" and "this \<notin> set v"
  shows "unvisited h (set_add this v) < unvisited h v"
proof -
  from assms have "this \<in> docs h - set v" by (simp add: docs_def)
  moreover from assms(2) have "docs h - set (set_add this v) = (docs h - set v) - {this}"
    by (auto simp add: set_add_def)
  ultimately show ?thesis
    unfolding unvisited_def using finite_docs
    by (metis card_Diff1_less finite_Diff)
qed

lemma set_set_add: "set (set_add x xs) = insert x (set xs)"
  by (auto simp add: set_add_def)

definition returns_growing ::
  "heap \<Rightarrow> nat \<Rightarrow> (ref \<Rightarrow> ref list \<times> ref list \<Rightarrow> (ref list \<times> ref list) outcome) \<Rightarrow> bool" where
  "returns_growing h n call =
     (\<forall>t result visited. unvisited h visited \<le> n \<longrightarrow>
        (\<exists>r. call t (result, visited) = Some r \<and>
             (\<forall>result' visited'. r = Inr (result', visited') \<longrightarrow> set visited \<subseteq> set visited')))"

lemma returns_growingD:
  "returns_growing h n call \<Longrightarrow> unvisited h visited \<le> n \<Longrightarrow>
     \<exists>r. call t (result, visited) = Some r \<and>
          (\<forall>result' visited'. r = Inr (result', visited') \<longrightarrow> set visited \<subseteq> set visited')"
  unfolding returns_growing_def by blast

lemma getFeatures_loop_returns:
  assumes c: "returns_growing h n call"
  shows "unvisited h visited \<le> n \<Longrightarrow>
     \<exists>r. getFeatures_loop call h deep features (result, visited) = Some r \<and>
          (\<forall>result' visited'. r = Inr (result', visited') \<longrightarrow> set visited \<subseteq> set visited')"
proof (induction features arbitrary: result visited)
  case Nil
  then show ?case by simp
next
  case (Cons feature rest)
  show ?case
  proof (cases deep)
    case False
    with Cons.IH[OF Cons.prems] show ?thesis by simp
  next
    case True
    show ?thesis
    proof (cases "deref h feature")
      case None
      with True show ?thesis by simp
    next
      case (Some ob)
      let ?r1 = "set_add feature result"
      let ?s1 = "if ''document'' \<in> set (kinds_of ob) then call feature (?r1, visited)
                 else Some (Inr (?r1, visited))"
      have "\<exists>o1. ?s1 = Some o1 \<and>
         (\<forall>result' visited'. o1 = Inr (result', visited') \<longrightarrow> set visited \<subseteq> set visited')"
      proof (cases "''document'' \<in> set (kinds_of ob)")
        case True
        with returns_growingD[OF c Cons.prems, of feature ?r1] show ?thesis by simp
      next
        case False
        then show ?thesis by simp
      qed
      then obtain o1 where o1: "?s1 = Some o1"
        and g1: "\<forall>result' visited'. o1 = Inr (result', visited') \<longrightarrow> set visited \<subseteq> set visited'"
        by blast
      show ?thesis
      proof (cases o1)
        case (Inl e)
        with o1 True Some show ?thesis by simp
      next
        case (Inr st1)
        obtain r1 v1 where st1: "st1 = (r1, v1)" by (cases st1)
        with g1 Inr have sub1: "set visited \<subseteq> set v1" by simp
        with Cons.prems unvisited_mono have u1: "unvisited h v1 \<le> n" using le_trans by blast
        let ?s2 = "if ''import'' \<in> set (kinds_of ob)
                   then (case import_document h feature of
                           None \<Rightarrow> Some (Inl TypeError)
                         | Some target \<Rightarrow> call target st1)
                   else Some (Inr st1)"
        have "\<exists>o2. ?s2 = Some o2 \<and>
           (\<forall>result' visited'. o2 = Inr (result', visited') \<longrightarrow> set v1 \<subseteq> set visited')"
        proof (cases "''import'' \<in> set (kinds_of ob)")
          case False
          with st1 show ?thesis by simp
        next
          case imp: True
          show ?thesis
          proof (cases "import_document h feature")
            case None
            with imp show ?thesis by simp
          next
            case (Some target)
            with imp returns_growingD[OF c u1, of target r1] st1 show ?thesis by simp
          qed
        qed
        then obtain o2 where o2: "?s2 = Some o2"
          and g2: "\<forall>result' visited'. o2 = Inr (result', visited') \<longrightarrow> set v1 \<subseteq> set visited'"
          by blast
        show ?thesis
        proof (cases o2)
          case (Inl e)
          with o1 o2 True Some \<open>o1 = Inr st1\<close> show ?thesis by simp
        next
          case (Inr st2)
          obtain r2 v2 where st2: "st2 = (r2, v2)" by (cases st2)
          with g2 Inr have sub2: "set v1 \<subseteq> set v2" by simp
          with u1 unvisited_mono have u2: "unvisited h v2 \<le> n" using le_trans by blast
          from Cons.IH[OF u2, of r2] obtain r where
            r: "getFeatures_loop call h deep rest (r2, v2) = Some r"
            and g: "\<forall>result' visited'. r = Inr (result', visited') \<longrightarrow> set v2 \<subseteq> set visited'"
            by blast
          from o1 o2 True Some \<open>o1 = Inr st1\<close> Inr st2 r
          have "getFeatures_loop call h deep (feature # rest) (result, visited) = Some r"
            by simp
          with g sub1 sub2 show ?thesis by blast
        qed
      qed
    qed
  qed
qed

lemma getFeatures_depth_returns: "returns_growing h n (getFeatures_depth n h deep)"
proof (induction n)
  case 0
  show ?case
    unfolding returns_growing_def
  proof (intro allI impI)
    fix t result visited assume u: "unvisited h visited \<le> 0"
    show "\<exists>r. getFeatures_depth 0 h deep t (result, visited) = Some r \<and>
             (\<forall>result' visited'. r = Inr (result', visited') \<longrightarrow> set visited \<subseteq> set visited')"
    proof (cases "doc_at h t")
      case None
      then show ?thesis by (simp add: getFeatures_body_def)
    next
      case (Some d)
      have "t \<in> set visited"
      proof (rule ccontr)
        assume "t \<notin> set visited"
        with Some unvisited_add[of h t visited] u show False by simp
      qed
      with Some show ?thesis by (simp add: getFeatures_body_def)
    qed
  qed
next
  case (Suc n)
  show ?case
    unfolding returns_growing_def
  proof (intro allI impI)
    fix t result visited assume u: "unvisited h visited \<le> Suc n"
    show "\<exists>r. getFeatures_depth (Suc n) h deep t (result, visited) = Some r \<and>
             (\<forall>result' visited'. r = Inr (result', visited') \<longrightarrow> set visited \<subseteq> set visited')"
    proof (cases "doc_at h t")
      case None
      then show ?thesis by (simp add: getFeatures_body_def)
    next
      case (Some d)
      show ?thesis
      proof (cases "t \<in> set visited")
        case True
        with Some show ?thesis by (simp add: getFeatures_body_def)
      next
        case False
        with Some unvisited_add[of h t visited] u
        have "unvisited h (set_add t visited) \<le> n" by simp
        from getFeatures_loop_returns[OF Suc this, of deep "localFeatures d" result]
        obtain r where "getFeatures_loop (getFeatures_depth n h deep) h deep (localFeatures d)
                          (result, set_add t visited) = Some r"
          and "\<forall>result' visited'. r = Inr (result', visited') \<longrightarrow>
                 set (set_add t visited) \<subseteq> set visited'" by blast
        with Some False show ?thesis by (auto simp add: getFeatures_body_def set_set_add)
      qed
    qed
  qed
qed

lemma getFeatures_returns: "length h \<le> n \<Longrightarrow> \<exists>r. getFeatures n h this deep = Some r"
proof -
  assume "length h \<le> n"
  with unvisited_le_length[of h "[]"] have "unvisited h [] \<le> n" by simp
  with getFeatures_depth_returns[of h n deep] obtain r where
    "getFeatures_depth n h deep this ([], []) = Some r"
    unfolding returns_growing_def by blast
  then show ?thesis by (cases r) (auto simp add: getFeatures_def split: prod.splits)
qed

definition returns_walking ::
  "heap \<Rightarrow> nat \<Rightarrow> (ref \<Rightarrow> ref list \<Rightarrow> (ref list \<times> ref list) outcome) \<Rightarrow> bool" where
  "returns_walking h n call =
     (\<forall>t walked. t \<notin> set walked \<and> unvisited h walked \<le> n \<longrightarrow>
        (\<exists>r. call t walked = Some r \<and>
             (\<forall>sub walked'. r = Inr (sub, walked') \<longrightarrow> set walked \<subseteq> set walked')))"

lemma returns_walkingD:
  "returns_walking h n call \<Longrightarrow> t \<notin> set walked \<Longrightarrow> unvisited h walked \<le> n \<Longrightarrow>
     \<exists>r. call t walked = Some r \<and>
          (\<forall>sub walked'. r = Inr (sub, walked') \<longrightarrow> set walked \<subseteq> set walked')"
  unfolding returns_walking_def by blast

lemma visit_document_returns:
  assumes c: "returns_walking h n call" and u: "unvisited h walked \<le> n"
  shows "\<exists>r. visit_document call target (result, walked) = Some r \<and>
          (\<forall>result' walked'. r = Inr (result', walked') \<longrightarrow> set walked \<subseteq> set walked')"
proof (cases "target \<in> set walked")
  case True
  then show ?thesis by (simp add: visit_document_def)
next
  case False
  from returns_walkingD[OF c False u] obtain r where r: "call target walked = Some r"
    and g: "\<forall>sub walked'. r = Inr (sub, walked') \<longrightarrow> set walked \<subseteq> set walked'" by blast
  show ?thesis
  proof (cases r)
    case (Inl e)
    with r False show ?thesis by (simp add: visit_document_def)
  next
    case (Inr p)
    obtain sub w' where "p = (sub, w')" by (cases p)
    with r g Inr False show ?thesis by (simp add: visit_document_def)
  qed
qed

lemma getByKind_loop_returns:
  assumes c: "returns_walking h n call"
  shows "unvisited h walked \<le> n \<Longrightarrow>
     \<exists>r. getByKind_loop call h kind features (result, walked) = Some r \<and>
          (\<forall>result' walked'. r = Inr (result', walked') \<longrightarrow> set walked \<subseteq> set walked')"
proof (induction features arbitrary: result walked)
  case Nil
  then show ?case by simp
next
  case (Cons feature rest)
  show ?case
  proof (cases "deref h feature")
    case None
    then show ?thesis by simp
  next
    case (Some ob)
    let ?r1 = "if kind \<in> set (kinds_of ob) then set_add feature result else result"
    let ?s1 = "if ''import'' \<in> set (kinds_of ob)
               then (case import_document h feature of
                       None \<Rightarrow> Some (Inl TypeError)
                     | Some target \<Rightarrow> visit_document call target (?r1, walked))
               else Some (Inr (?r1, walked))"
    have "\<exists>o1. ?s1 = Some o1 \<and>
       (\<forall>result' walked'. o1 = Inr (result', walked') \<longrightarrow> set walked \<subseteq> set walked')"
    proof (cases "''import'' \<in> set (kinds_of ob)")
      case False
      then show ?thesis by simp
    next
      case imp: True
      show ?thesis
      proof (cases "import_document h feature")
        case None
        with imp show ?thesis by simp
      next
        case (Some target)
        with imp visit_document_returns[OF c Cons.prems, of target ?r1] show ?thesis by simp
      qed
    qed
    then obtain o1 where o1: "?s1 = Some o1"
      and g1: "\<forall>result' walked'. o1 = Inr (result', walked') \<longrightarrow> set walked \<subseteq> set walked'"
      by blast
    show ?thesis
    proof (cases o1)
      case (Inl e)
      with o1 Some show ?thesis by simp
    next
      case (Inr st1)
      obtain r1 w1 where st1: "st1 = (r1, w1)" by (cases st1)
      with g1 Inr have sub1: "set walked \<subseteq> set w1" by simp
      with Cons.prems unvisited_mono have u1: "unvisited h w1 \<le> n" using le_trans by blast
      let ?s2 = "if ''document'' \<in> set (kinds_of ob) then visit_document call feature st1
                 else Some (Inr st1)"
      have "\<exists>o2. ?s2 = Some o2 \<and>
         (\<forall>result' walked'. o2 = Inr (result', walked') \<longrightarrow> set w1 \<subseteq> set walked')"
      proof (cases "''document'' \<in> set (kinds_of ob)")
        case False
        with st1 show ?thesis by simp
      next
        case True
        with visit_document_returns[OF c u1, of feature r1] st1 show ?thesis by simp
      qed
      then obtain o2 where o2: "?s2 = Some o2"
        and g2: "\<forall>result' walked'. o2 = Inr (result', walked') \<longrightarrow> set w1 \<subseteq> set walked'"
        by blast
      show ?thesis
      proof (cases o2)
        case (Inl e)
        with o1 o2 Some \<open>o1 = Inr st1\<close> show ?thesis by simp
      next
        case (Inr st2)
        obtain r2 w2 where st2: "st2 = (r2, w2)" by (cases st2)
        with g2 Inr have sub2: "set w1 \<subseteq> set w2" by simp
        with u1 unvisited_mono have u2: "unvisited h w2 \<le> n" using le_trans by blast
        from Cons.IH[OF u2, of r2] obtain r where
          r: "getByKind_loop call h kind rest (r2, w2) = Some r"
          and g: "\<forall>result' walked'. r = Inr (result', walked') \<longrightarrow> set w2 \<subseteq> set walked'"
          by blast
        from o1 o2 Some \<open>o1 = Inr st1\<close> Inr st2 r
        have "getByKind_loop call h kind (feature # rest) (result, walked) = Some r"
          by simp
        with g sub1 sub2 show ?thesis by blast
      qed
    qed
  qed
qed

lemma getByKind_depth_returns: "returns_walking h n (getByKind_depth n h kind)"
proof (induction n)
  case 0
  show ?case
    unfolding returns_walking_def
  proof (intro allI impI)
    fix t walked assume a: "t \<notin> set walked \<and> unvisited h walked \<le> 0"
    have "doc_at h t = None"
    proof (rule ccontr)
      assume "doc_at h t \<noteq> None"
      with a unvisited_add[of h t walked] show False by simp
    qed
    then show "\<exists>r. getByKind_depth 0 h kind t walked = Some r \<and>
             (\<forall>sub walked'. r = Inr (sub, walked') \<longrightarrow> set walked \<subseteq> set walked')"
      by (simp add: getByKind_body_def)
  qed
next
  case (Suc n)
  show ?case
    unfolding returns_walking_def
  proof (intro allI impI)
    fix t walked assume a: "t \<notin> set walked \<and> unvisited h walked \<le> Suc n"
    show "\<exists>r. getByKind_depth (Suc n) h kind t walked = Some r \<and>
             (\<forall>sub walked'. r = Inr (sub, walked') \<longrightarrow> set walked \<subseteq> set walked')"
    proof (cases "doc_at h t")
      case None
      then show ?thesis by (simp add: getByKind_body_def)
    next
      case (Some d)
      with a unvisited_add[of h t walked]
      have "unvisited h (set_add t walked) \<le> n" by simp
      from getByKind_loop_returns[OF Suc this, of kind "localFeatures d" "[]"]
      obtain r where "getByKind_loop (getByKind_depth n h kind) h kind (localFeatures d)
                        ([], set_add t walked) = Some r"
        and "\<forall>result' walked'. r = Inr (result', walked') \<longrightarrow>
               set (set_add t walked) \<subseteq> set walked'" by blast
      with Some show ?thesis by (auto simp add: getByKind_body_def set_set_add)
    qed
  qed
qed

lemma length_put_doc: "length (put_doc h r d) = length h"
  by (simp add: put_doc_def)

lemma buildIndexes_returns: "length h \<le> n \<Longrightarrow> \<exists>r. buildIndexes n h this = Some r"
proof -
  assume n: "length h \<le> n"
  show ?thesis
  proof (cases "doc_at h this")
    case None
    then show ?thesis by (simp add: buildIndexes_def)
  next
    case (Some d)
    let ?h1 = "put_doc h this (d\<lparr>featuresByKind := Some [], featuresByKindAndId := Some []\<rparr>)"
    from n have "length ?h1 \<le> n" by (simp add: length_put_doc)
    from getFeatures_returns[OF this, of this True] obtain r where
      "getFeatures n ?h1 this True = Some r" by blast
    with Some show ?thesis by (cases r) (auto simp add: buildIndexes_def)
  qed
qed

lemma getByKind_returns:
  assumes n: "length h \<le> n"
  shows "\<exists>r. getByKind n h this kind = Some r"
proof (cases "doc_at h this")
  case None
  then show ?thesis by (simp add: getByKind.simps[of n h this kind])
next
  case (Some d)
  show ?thesis
  proof (cases "featuresByKind d")
    case (Some byKind)
    with \<open>doc_at h this = Some d\<close> show ?thesis by (simp add: getByKind.simps[of n h this kind])
  next
    case None
    show ?thesis
    proof (cases "doneResolving d")
      case True
      from buildIndexes_returns[OF n, of this] obtain r where r: "buildIndexes n h this = Some r"
        by blast
      show ?thesis
      proof (cases r)
        case (Inl e)
        with r None True \<open>doc_at h this = Some d\<close> show ?thesis
          by (simp add: getByKind.simps[of n h this kind])
      next
        case (Inr h')
        with r buildIndexes_index[of n h this h'] obtain d' where
          d': "doc_at h' this = Some d'" "featuresByKind d' \<noteq> None" by auto
        then obtain byKind where "featuresByKind d' = Some byKind" by auto
        with d' have "getByKind n h' this kind = Some (Inr (get_or_empty byKind kind, h'))"
          by (simp add: getByKind.simps[of n h' this kind])
        with r Inr None True \<open>doc_at h this = Some d\<close> show ?thesis
          by (simp add: getByKind.simps[of n h this kind])
      qed
    next
      case False
      from unvisited_le_length[of h "[]"] n have "unvisited h [] \<le> n" by simp
      from returns_walkingD[OF getByKind_depth_returns _ this, of this kind]
      obtain r where r: "getByKind_depth n h kind this [] = Some r" by auto
      with None False \<open>doc_at h this = Some d\<close> show ?thesis
        by (cases r) (auto simp add: getByKind.simps[of n h this kind])
    qed
  qed
qed

subsection \<open>What resolving changes\<close>

text \<open>
  A document is \<open>fresh\<close> when resolving it has not begun (and it is not done).
  \<open>frame h h'\<close> says that from \<open>h\<close> to \<open>h'\<close> only fresh documents changed, and that
  they are still documents and have an index if and only if they had one;
  \<open>unbegun h\<close> counts the fresh documents; \<open>resolved_features\<close> are the features that
  the resolvable scanned features return, in order.
\<close>

definition fresh :: "heap \<Rightarrow> ref \<Rightarrow> bool" where
  "fresh h r = (\<exists>d. doc_at h r = Some d \<and> \<not> begunResolving d \<and> \<not> doneResolving d)"

definition same_index :: "Document \<Rightarrow> Document \<Rightarrow> bool" where
  "same_index d d' =
     ((featuresByKind d' = None \<longleftrightarrow> featuresByKind d = None) \<and>
      (featuresByKindAndId d' = None \<longleftrightarrow> featuresByKindAndId d = None))"

definition frame :: "heap \<Rightarrow> heap \<Rightarrow> bool" where
  "frame h h' =
     (length h' = length h \<and>
      (\<forall>r. if fresh h r
           then (\<exists>d d'. doc_at h r = Some d \<and> doc_at h' r = Some d' \<and> same_index d d')
           else deref h' r = deref h r))"

definition unbegun :: "heap \<Rightarrow> nat" where
  "unbegun h = card {r. fresh h r}"

definition resolved_features :: "ScannedFeature list \<Rightarrow> ref list" where
  "resolved_features sfs =
     concat (map (\<lambda>sf. if resolvable sf
                        then (case resolve_result sf of Inr (Some f) \<Rightarrow> [f] | _ \<Rightarrow> [])
                        else []) sfs)"

lemma doc_at_deref: "deref h' r = deref h r \<Longrightarrow> doc_at h' r = doc_at h r"
  by (simp add: doc_at_def)

lemma fresh_deref: "deref h' r = deref h r \<Longrightarrow> fresh h' r = fresh h r"
  by (simp add: fresh_def doc_at_def)

lemma same_index_refl: "same_index d d"
  by (simp add: same_index_def)

lemma same_index_trans: "same_index d d1 \<Longrightarrow> same_index d1 d2 \<Longrightarrow> same_index d d2"
  by (simp add: same_index_def)

lemma frame_refl: "frame h h"
  by (auto simp add: frame_def fresh_def same_index_refl)

lemma frameD_fresh:
  "frame h h' \<Longrightarrow> fresh h r \<Longrightarrow>
     \<exists>d d'. doc_at h r = Some d \<and> doc_at h' r = Some d' \<and> same_index d d'"
  unfolding frame_def by metis

lemma frameD_other: "frame h h' \<Longrightarrow> \<not> fresh h r \<Longrightarrow> deref h' r = deref h r"
  unfolding frame_def by metis

lemma frameD_length: "frame h h' \<Longrightarrow> length h' = length h"
  unfolding frame_def by simp

lemma frameI:
  assumes "length h' = length h"
    and "\<And>r. fresh h r \<Longrightarrow>
           \<exists>d d'. doc_at h r = Some d \<and> doc_at h' r = Some d' \<and> same_index d d'"
    and "\<And>r. \<not> fresh h r \<Longrightarrow> deref h' r = deref h r"
  shows "frame h h'"
  unfolding frame_def using assms by simp

lemma frame_trans:
  assumes "frame h h1" and "frame h1 h2"
  shows "frame h h2"
proof (rule frameI)
  from assms show "length h2 = length h" by (simp add: frameD_length)
next
  fix r assume f: "fresh h r"
  from frameD_fresh[OF assms(1) f] obtain d d1 where d: "doc_at h r = Some d"
    and d1: "doc_at h1 r = Some d1" and s1: "same_index d d1" by blast
  show "\<exists>d d'. doc_at h r = Some d \<and> doc_at h2 r = Some d' \<and> same_index d d'"
  proof (cases "fresh h1 r")
    case True
    from frameD_fresh[OF assms(2) True] d1 obtain d2 where "doc_at h2 r = Some d2"
      and "same_index d1 d2" by auto
    with d same_index_trans[OF s1] show ?thesis by blast
  next
    case False
    from doc_at_deref[OF frameD_other[OF assms(2) False]] d1 have "doc_at h2 r = Some d1" by simp
    with d s1 show ?thesis by blast
  qed
next
  fix r assume n: "\<not> fresh h r"
  from frameD_other[OF assms(1) n] have e: "deref h1 r = deref h r" .
  with n have "\<not> fresh h1 r" using fresh_deref[OF e] by simp
  from frameD_other[OF assms(2) this] e show "deref h2 r = deref h r" by simp
qed

lemma deref_put_doc:
  "deref (put_doc h this d') r = (if r = this \<and> this < length h then Some (Doc d') else deref h r)"
  by (auto simp add: deref_def put_doc_def)

lemma doc_at_length: "doc_at h r = Some d \<Longrightarrow> r < length h"
  by (auto simp add: doc_at_def deref_def split: if_splits)

lemma frame_put_doc:
  assumes "frame h h1" and "fresh h this" and "doc_at h1 this = Some d1" and "same_index d1 d'"
  shows "frame h (put_doc h1 this d')"
proof (rule frameI)
  from assms(1) show "length (put_doc h1 this d') = length h"
    by (simp add: length_put_doc frameD_length)
next
  fix r assume f: "fresh h r"
  from frameD_fresh[OF assms(1) f] obtain d dr where d: "doc_at h r = Some d"
    and dr: "doc_at h1 r = Some dr" and sr: "same_index d dr" by blast
  show "\<exists>d d'a. doc_at h r = Some d \<and> doc_at (put_doc h1 this d') r = Some d'a \<and> same_index d d'a"
  proof (cases "r = this")
    case True
    with dr assms(3) have "dr = d1" by simp
    with sr assms(4) have "same_index d d'" using same_index_trans by blast
    moreover from True assms(3) have "doc_at (put_doc h1 this d') r = Some d'"
      by (simp add: doc_at_put_doc)
    ultimately show ?thesis using d by blast
  next
    case False
    with assms(3) dr have "doc_at (put_doc h1 this d') r = Some dr" by (simp add: doc_at_put_doc)
    with d sr show ?thesis by blast
  qed
next
  fix r assume n: "\<not> fresh h r"
  with assms(2) have "r \<noteq> this" by auto
  then have "deref (put_doc h1 this d') r = deref h1 r" by (simp add: deref_put_doc)
  with frameD_other[OF assms(1) n] show "deref (put_doc h1 this d') r = deref h r" by simp
qed

lemma frame_fresh_subset: "frame h h' \<Longrightarrow> fresh h' r \<Longrightarrow> fresh h r"
proof (rule ccontr)
  assume f: "frame h h'" and f': "fresh h' r" and n: "\<not> fresh h r"
  from frameD_other[OF f n] have "deref h' r = deref h r" .
  from fresh_deref[OF this] f' n show False by simp
qed

lemma fresh_bound: "{r. fresh h r} \<subseteq> {..<length h}"
  by (auto simp add: fresh_def dest: doc_at_length)

lemma finite_fresh: "finite {r. fresh h r}"
  using fresh_bound finite_subset by blast

lemma unbegun_le_length: "unbegun h \<le> length h"
proof -
  have "card {r. fresh h r} \<le> card {..<length h}" by (rule card_mono[OF _ fresh_bound]) simp
  then show ?thesis by (simp add: unbegun_def)
qed

lemma frame_unbegun: "frame h h' \<Longrightarrow> unbegun h' \<le> unbegun h"
proof -
  assume f: "frame h h'"
  have "{r. fresh h' r} \<subseteq> {r. fresh h r}"
  proof
    fix r assume "r \<in> {r. fresh h' r}"
    then have "fresh h' r" by simp
    from frame_fresh_subset[OF f this] show "r \<in> {r. fresh h r}" by simp
  qed
  from card_mono[OF finite_fresh this] show ?thesis by (simp add: unbegun_def)
qed

lemma addFeature_Inr:
  assumes "addFeature h this feature = Inr h'"
  shows "\<exists>d d'. doc_at h this = Some d \<and> h' = put_doc h this d' \<and> \<not> doneResolving d \<and>
           begunResolving d' = begunResolving d \<and> doneResolving d' = doneResolving d \<and>
           localFeatures d' = set_add feature (localFeatures d) \<and>
           scannedFeatures d' = scannedFeatures d \<and>
           (featuresByKind d' = None \<longleftrightarrow> featuresByKind d = None) \<and>
           (featuresByKindAndId d' = None \<longleftrightarrow> featuresByKindAndId d = None)"
proof -
  from assms obtain d where d: "doc_at h this = Some d"
    by (cases "doc_at h this") (simp_all add: addFeature_def)
  from assms d have nd: "\<not> doneResolving d"
    by (cases "doneResolving d") (simp_all add: addFeature_def)
  from assms d nd obtain d1 where i: "indexFeature h d feature = Inr d1"
    and h': "h' = put_doc h this (d1\<lparr>localFeatures := set_add feature (localFeatures d1)\<rparr>)"
    by (cases "indexFeature h d feature") (simp_all add: addFeature_def)
  let ?d' = "d1\<lparr>localFeatures := set_add feature (localFeatures d1)\<rparr>"
  from indexFeature_index[OF i]
  have f: "begunResolving ?d' = begunResolving d" "doneResolving ?d' = doneResolving d"
    "localFeatures ?d' = set_add feature (localFeatures d)"
    "scannedFeatures ?d' = scannedFeatures d"
    "featuresByKind ?d' = None \<longleftrightarrow> featuresByKind d = None"
    "featuresByKindAndId ?d' = None \<longleftrightarrow> featuresByKindAndId d = None"
    by simp_all
  show ?thesis
    by (rule exI[of _ d], rule exI[of _ ?d'], intro conjI) (rule d h' nd f)+
qed

definition call_frames :: "(heap \<Rightarrow> ref \<Rightarrow> heap outcome) \<Rightarrow> bool" where
  "call_frames call = (\<forall>h t h'. call h t = Some (Inr h') \<longrightarrow> frame h h')"

lemma call_framesD: "call_frames call \<Longrightarrow> call h t = Some (Inr h') \<Longrightarrow> frame h h'"
  unfolding call_frames_def by blast

lemma run_calls_frame:
  assumes c: "call_frames call"
  shows "run_calls call h ts = Some (Inr h') \<Longrightarrow> frame h h'"
proof (induction ts arbitrary: h)
  case Nil
  then show ?case by (simp add: frame_refl)
next
  case (Cons t ts)
  from Cons.prems obtain h1 where 1: "call h t = Some (Inr h1)"
    and 2: "run_calls call h1 ts = Some (Inr h')"
    by (auto split: option.splits sum.splits)
  from frame_trans[OF call_framesD[OF c 1] Cons.IH[OF 2]] show ?case .
qed

lemma resolve_loop_frame:
  assumes c: "call_frames call" and f: "fresh h0 this"
  shows "frame h0 h \<Longrightarrow> resolve_loop call h this sfs = Some (Inr h') \<Longrightarrow> frame h0 h'"
proof (induction sfs arbitrary: h)
  case Nil
  then show ?case by simp
next
  case (Cons sf sfs)
  show ?case
  proof (cases "resolvable sf")
    case False
    with Cons.prems(2) have "resolve_loop call h this sfs = Some (Inr h')" by simp
    from Cons.IH[OF Cons.prems(1) this] show ?thesis .
  next
    case True
    with Cons.prems(2) obtain h1 where 1: "run_calls call h (resolve_calls sf) = Some (Inr h1)"
      by (auto split: option.splits sum.splits)
    from frame_trans[OF Cons.prems(1) run_calls_frame[OF c 1]] have f1: "frame h0 h1" .
    show ?thesis
    proof (cases "resolve_result sf")
      case (Inl e)
      with Cons.prems(2) True 1 show ?thesis by simp
    next
      case (Inr res)
      show ?thesis
      proof (cases res)
        case None
        with Cons.prems(2) True 1 Inr have "resolve_loop call h1 this sfs = Some (Inr h')" by simp
        from Cons.IH[OF f1 this] show ?thesis .
      next
        case (Some feature)
        with Cons.prems(2) True 1 Inr obtain h2 where a: "addFeature h1 this feature = Inr h2"
          and l: "resolve_loop call h2 this sfs = Some (Inr h')"
          by (auto split: sum.splits)
        from addFeature_Inr[OF a] obtain d1 d' where "doc_at h1 this = Some d1"
          "h2 = put_doc h1 this d'" "same_index d1 d'" by (auto simp add: same_index_def)
        with frame_put_doc[OF f1 f] have "frame h0 h2" by simp
        from Cons.IH[OF this l] show ?thesis .
      qed
    qed
  qed
qed

lemma resolve_body_frame:
  assumes c: "call_frames call" and r: "resolve_body call h this = Some (Inr h')"
  shows "frame h h'"
proof -
  from r obtain d where d: "doc_at h this = Some d"
    by (cases "doc_at h this") (simp_all add: resolve_body_def)
  from r d have nd: "\<not> doneResolving d"
    by (cases "doneResolving d") (simp_all add: resolve_body_def)
  show ?thesis
  proof (cases "begunResolving d")
    case True
    with r d nd have "h' = h" by (simp add: resolve_body_def)
    then show ?thesis by (simp add: frame_refl)
  next
    case False
    with d nd have f: "fresh h this" by (simp add: fresh_def)
    let ?h0 = "put_doc h this (d\<lparr>begunResolving := True\<rparr>)"
    from r d nd False obtain h1 where a: "addFeature ?h0 this this = Inr h1"
      by (cases "addFeature ?h0 this this") (simp_all add: resolve_body_def)
    with r d nd False obtain h2 where l: "resolve_loop call h1 this (scannedFeatures d) = Some (Inr h2)"
      by (auto simp add: resolve_body_def split: option.splits sum.splits)
    with r d nd False a obtain d2 where d2: "doc_at h2 this = Some d2"
      and h': "h' = put_doc h2 this (d2\<lparr>doneResolving := True\<rparr>)"
      by (auto simp add: resolve_body_def split: option.splits)
    have "same_index d (d\<lparr>begunResolving := True\<rparr>)" by (simp add: same_index_def)
    from frame_put_doc[OF frame_refl f d this] have f0: "frame h ?h0" .
    from addFeature_Inr[OF a] obtain d0 d1 where "doc_at ?h0 this = Some d0"
      "h1 = put_doc ?h0 this d1" "same_index d0 d1" by (auto simp add: same_index_def)
    with frame_put_doc[OF f0 f] have "frame h h1" by simp
    from resolve_loop_frame[OF c f this l] have f2: "frame h h2" .
    have "same_index d2 (d2\<lparr>doneResolving := True\<rparr>)" by (simp add: same_index_def)
    from frame_put_doc[OF f2 f d2 this] h' show ?thesis by simp
  qed
qed

lemma resolve_frame: "call_frames (resolve n)"
proof (induction n)
  case 0
  have c: "call_frames (\<lambda>h t. None)" by (simp add: call_frames_def)
  show ?case
    unfolding call_frames_def
  proof (intro allI impI)
    fix h t h' assume "resolve 0 h t = Some (Inr h')"
    then have "resolve_body (\<lambda>h t. None) h t = Some (Inr h')" by simp
    from resolve_body_frame[OF c this] show "frame h h'" .
  qed
next
  case (Suc n)
  show ?case
    unfolding call_frames_def
  proof (intro allI impI)
    fix h t h' assume "resolve (Suc n) h t = Some (Inr h')"
    then have "resolve_body (resolve n) h t = Some (Inr h')" by simp
    from resolve_body_frame[OF Suc this] show "frame h h'" .
  qed
qed

lemma fresh_put_doc:
  assumes "doc_at h this = Some d"
  shows "fresh (put_doc h this d') r =
           (if r = this then \<not> begunResolving d' \<and> \<not> doneResolving d' else fresh h r)"
  using assms by (simp add: fresh_def doc_at_put_doc)

lemma unbegun_put_doc_same:
  assumes "doc_at h this = Some d" and "begunResolving d' = begunResolving d"
    and "doneResolving d' = doneResolving d"
  shows "unbegun (put_doc h this d') = unbegun h"
proof -
  have "fresh (put_doc h this d') r = fresh h r" for r
  proof (cases "r = this")
    case True
    from assms have "fresh h this = (\<not> begunResolving d' \<and> \<not> doneResolving d')"
      by (simp add: fresh_def)
    with True show ?thesis by (simp add: fresh_put_doc[OF assms(1)])
  next
    case False
    then show ?thesis by (simp add: fresh_put_doc[OF assms(1)])
  qed
  then show ?thesis by (simp add: unbegun_def)
qed

lemma unbegun_put_doc_begun:
  assumes "fresh h this" and "begunResolving d'"
  shows "unbegun (put_doc h this d') < unbegun h"
proof -
  from assms(1) obtain d where d: "doc_at h this = Some d" by (auto simp add: fresh_def)
  from assms(2) have "{r. fresh (put_doc h this d') r} = {r. fresh h r} - {this}"
    by (auto simp add: fresh_put_doc[OF d])
  moreover from assms(1) have "this \<in> {r. fresh h r}" by simp
  then have "card ({r. fresh h r} - {this}) < card {r. fresh h r}"
    by (rule card_Diff1_less[OF finite_fresh])
  ultimately show ?thesis by (simp add: unbegun_def)
qed

definition call_returns :: "nat \<Rightarrow> (heap \<Rightarrow> ref \<Rightarrow> heap outcome) \<Rightarrow> bool" where
  "call_returns m call = (\<forall>h t. unbegun h \<le> m \<longrightarrow> (\<exists>r. call h t = Some r))"

lemma call_returnsD: "call_returns m call \<Longrightarrow> unbegun h \<le> m \<Longrightarrow> \<exists>r. call h t = Some r"
  unfolding call_returns_def by blast

lemma run_calls_returns:
  assumes c: "call_frames call" and r: "call_returns m call"
  shows "unbegun h \<le> m \<Longrightarrow> \<exists>res. run_calls call h ts = Some res"
proof (induction ts arbitrary: h)
  case Nil
  then show ?case by simp
next
  case (Cons t ts)
  from call_returnsD[OF r Cons.prems] obtain r1 where r1: "call h t = Some r1" by blast
  show ?case
  proof (cases r1)
    case (Inl e)
    with r1 show ?thesis by simp
  next
    case (Inr h1)
    with r1 call_framesD[OF c] have "frame h h1" by simp
    from frame_unbegun[OF this] Cons.prems have "unbegun h1 \<le> m" by simp
    from Cons.IH[OF this] r1 Inr show ?thesis by simp
  qed
qed

lemma resolve_loop_returns:
  assumes c: "call_frames call" and r: "call_returns m call"
  shows "unbegun h \<le> m \<Longrightarrow> \<exists>res. resolve_loop call h this sfs = Some res"
proof (induction sfs arbitrary: h)
  case Nil
  then show ?case by simp
next
  case (Cons sf sfs)
  show ?case
  proof (cases "resolvable sf")
    case False
    with Cons.IH[OF Cons.prems] show ?thesis by simp
  next
    case True
    from run_calls_returns[OF c r Cons.prems] obtain r1 where
      r1: "run_calls call h (resolve_calls sf) = Some r1" by blast
    show ?thesis
    proof (cases r1)
      case (Inl e)
      with r1 True show ?thesis by simp
    next
      case (Inr h1)
      from run_calls_frame[OF c] r1 Inr have "frame h h1" by simp
      from frame_unbegun[OF this] Cons.prems have u1: "unbegun h1 \<le> m" by simp
      show ?thesis
      proof (cases "resolve_result sf")
        case (Inl e)
        with r1 True \<open>r1 = Inr h1\<close> show ?thesis by simp
      next
        case res: (Inr res)
        show ?thesis
        proof (cases res)
          case None
          with Cons.IH[OF u1] r1 True \<open>r1 = Inr h1\<close> res show ?thesis by simp
        next
          case (Some feature)
          show ?thesis
          proof (cases "addFeature h1 this feature")
            case (Inl e)
            with r1 True \<open>r1 = Inr h1\<close> res Some show ?thesis by simp
          next
            case (Inr h2)
            from addFeature_Inr[OF Inr] obtain d d' where "doc_at h1 this = Some d"
              "h2 = put_doc h1 this d'" "begunResolving d' = begunResolving d"
              "doneResolving d' = doneResolving d" by blast
            with unbegun_put_doc_same[of h1 this d d'] u1 have "unbegun h2 \<le> m" by simp
            from Cons.IH[OF this] r1 True \<open>r1 = Inr h1\<close> res Some Inr show ?thesis by simp
          qed
        qed
      qed
    qed
  qed
qed

lemma resolve_body_not_fresh:
  assumes "\<not> fresh h this"
  shows "\<exists>res. resolve_body call h this = Some res"
proof (cases "doc_at h this")
  case None
  then show ?thesis by (simp add: resolve_body_def)
next
  case (Some d)
  with assms have "begunResolving d \<or> doneResolving d" by (auto simp add: fresh_def)
  with Some show ?thesis by (auto simp add: resolve_body_def)
qed

lemma resolve_body_returns:
  assumes c: "call_frames call" and r: "call_returns m call" and u: "unbegun h \<le> Suc m"
  shows "\<exists>res. resolve_body call h this = Some res"
proof (cases "fresh h this")
  case False
  then show ?thesis by (rule resolve_body_not_fresh)
next
  case True
  then obtain d where d: "doc_at h this = Some d" and nb: "\<not> begunResolving d"
    and nd: "\<not> doneResolving d"
    by (auto simp add: fresh_def)
  show ?thesis
  proof -
    let ?h0 = "put_doc h this (d\<lparr>begunResolving := True\<rparr>)"
    from unbegun_put_doc_begun[OF True, of "d\<lparr>begunResolving := True\<rparr>"] u
    have u0: "unbegun ?h0 \<le> m" by simp
    show ?thesis
    proof (cases "addFeature ?h0 this this")
      case (Inl e)
      with d nb nd show ?thesis by (simp add: resolve_body_def)
    next
      case (Inr h1)
      from addFeature_Inr[OF Inr] obtain d0 d1 where "doc_at ?h0 this = Some d0"
        "h1 = put_doc ?h0 this d1" "begunResolving d1 = begunResolving d0"
        "doneResolving d1 = doneResolving d0" by blast
      with unbegun_put_doc_same[of ?h0 this d0 d1] u0 have "unbegun h1 \<le> m" by simp
      from resolve_loop_returns[OF c r this, of this "scannedFeatures d"] obtain r2 where
        r2: "resolve_loop call h1 this (scannedFeatures d) = Some r2" by blast
      show ?thesis
      proof (cases r2)
        case (Inl e)
        with r2 Inr d nb nd show ?thesis by (simp add: resolve_body_def)
      next
        case h2: (Inr h2)
        with r2 Inr d nb nd show ?thesis
          by (cases "doc_at h2 this") (simp_all add: resolve_body_def)
      qed
    qed
  qed
qed

lemma resolve_returns: "call_returns n (resolve n)"
proof (induction n)
  case 0
  show ?case
    unfolding call_returns_def
  proof (intro allI impI)
    fix h t assume u: "unbegun h \<le> 0"
    have "\<not> fresh h t"
    proof
      assume "fresh h t"
      then have "t \<in> {r. fresh h r}" by simp
      with finite_fresh[of h] have "card {r. fresh h r} \<noteq> 0" by auto
      with u show False by (simp add: unbegun_def)
    qed
    from resolve_body_not_fresh[OF this] show "\<exists>r. resolve 0 h t = Some r" by simp
  qed
next
  case (Suc n)
  show ?case
    unfolding call_returns_def
  proof (intro allI impI)
    fix h t assume "unbegun h \<le> Suc n"
    from resolve_body_returns[OF resolve_frame Suc this]
    show "\<exists>r. resolve (Suc n) h t = Some r" by simp
  qed
qed

lemma frame_begun_unchanged:
  assumes "frame h h'" and "doc_at h this = Some d" and "begunResolving d"
  shows "doc_at h' this = Some d"
proof -
  from assms(2,3) have "\<not> fresh h this" by (simp add: fresh_def)
  from doc_at_deref[OF frameD_other[OF assms(1) this]] assms(2) show ?thesis by simp
qed

lemma fold_set_add_append:
  "fold set_add (xs @ ys) acc = fold set_add ys (fold set_add xs acc)"
  by simp

lemma resolve_loop_this:
  assumes c: "call_frames call"
  shows "doc_at h this = Some d \<Longrightarrow> begunResolving d \<Longrightarrow>
         resolve_loop call h this sfs = Some (Inr h') \<Longrightarrow>
         \<exists>d'. doc_at h' this = Some d' \<and> begunResolving d' \<and>
              localFeatures d' = fold set_add (resolved_features sfs) (localFeatures d)"
proof (induction sfs arbitrary: h d)
  case Nil
  then show ?case by (simp add: resolved_features_def)
next
  case (Cons sf sfs)
  show ?case
  proof (cases "resolvable sf")
    case False
    with Cons.prems(3) have l: "resolve_loop call h this sfs = Some (Inr h')" by simp
    from False have "resolved_features (sf # sfs) = resolved_features sfs"
      by (simp add: resolved_features_def)
    with Cons.IH[OF Cons.prems(1,2) l] show ?thesis by simp
  next
    case True
    with Cons.prems(3) obtain h1 where 1: "run_calls call h (resolve_calls sf) = Some (Inr h1)"
      by (auto split: option.splits sum.splits)
    from frame_begun_unchanged[OF run_calls_frame[OF c 1] Cons.prems(1,2)]
    have d1: "doc_at h1 this = Some d" .
    show ?thesis
    proof (cases "resolve_result sf")
      case (Inl e)
      with Cons.prems(3) True 1 show ?thesis by simp
    next
      case (Inr res)
      show ?thesis
      proof (cases res)
        case None
        with Cons.prems(3) True 1 Inr have l: "resolve_loop call h1 this sfs = Some (Inr h')"
          by simp
        from True Inr None have "resolved_features (sf # sfs) = resolved_features sfs"
          by (simp add: resolved_features_def)
        with Cons.IH[OF d1 Cons.prems(2) l] show ?thesis by simp
      next
        case (Some feature)
        with Cons.prems(3) True 1 Inr obtain h2 where a: "addFeature h1 this feature = Inr h2"
          and l: "resolve_loop call h2 this sfs = Some (Inr h')"
          by (auto split: sum.splits)
        from addFeature_Inr[OF a] d1 obtain d2 where h2: "h2 = put_doc h1 this d2"
          and b2: "begunResolving d2 = begunResolving d"
          and l2: "localFeatures d2 = set_add feature (localFeatures d)" by auto
        from h2 d1 have d2: "doc_at h2 this = Some d2" by (simp add: doc_at_put_doc)
        from b2 Cons.prems(2) have "begunResolving d2" by simp
        from Cons.IH[OF d2 this l] obtain d' where "doc_at h' this = Some d'" "begunResolving d'"
          "localFeatures d' = fold set_add (resolved_features sfs) (localFeatures d2)" by blast
        moreover from True Inr Some
        have "resolved_features (sf # sfs) = feature # resolved_features sfs"
          by (simp add: resolved_features_def)
        ultimately show ?thesis using l2 by simp
      qed
    qed
  qed
qed

lemma resolve_body_fresh:
  assumes c: "call_frames call" and d: "doc_at h this = Some d"
    and nb: "\<not> begunResolving d" and nd: "\<not> doneResolving d"
    and r: "resolve_body call h this = Some (Inr h')"
  shows "\<exists>d'. doc_at h' this = Some d' \<and> begunResolving d' \<and> doneResolving d' \<and>
           localFeatures d' =
             fold set_add (this # resolved_features (scannedFeatures d)) (localFeatures d)"
proof -
  let ?d0 = "d\<lparr>begunResolving := True\<rparr>"
  let ?h0 = "put_doc h this ?d0"
  from d have d0: "doc_at ?h0 this = Some ?d0" by (simp add: doc_at_put_doc)
  from r d nb nd obtain h1 where a: "addFeature ?h0 this this = Inr h1"
    by (cases "addFeature ?h0 this this") (simp_all add: resolve_body_def)
  with r d nb nd obtain h2 where l: "resolve_loop call h1 this (scannedFeatures d) = Some (Inr h2)"
    by (auto simp add: resolve_body_def split: option.splits sum.splits)
  with r d nb nd a obtain d2 where d2: "doc_at h2 this = Some d2"
    and h': "h' = put_doc h2 this (d2\<lparr>doneResolving := True\<rparr>)"
    by (auto simp add: resolve_body_def split: option.splits)
  from addFeature_Inr[OF a] d0 obtain d1 where h1: "h1 = put_doc ?h0 this d1"
    and b1: "begunResolving d1 = begunResolving ?d0"
    and l1: "localFeatures d1 = set_add this (localFeatures ?d0)" by auto
  from h1 d0 have d1: "doc_at h1 this = Some d1" by (simp add: doc_at_put_doc)
  from b1 have "begunResolving d1" by simp
  from resolve_loop_this[OF c d1 this l] d2 have "begunResolving d2"
    and "localFeatures d2 = fold set_add (resolved_features (scannedFeatures d)) (localFeatures d1)"
    by auto
  with l1 have "begunResolving (d2\<lparr>doneResolving := True\<rparr>)"
    "doneResolving (d2\<lparr>doneResolving := True\<rparr>)"
    "localFeatures (d2\<lparr>doneResolving := True\<rparr>) =
       fold set_add (this # resolved_features (scannedFeatures d)) (localFeatures d)"
    by simp_all
  moreover from h' d2 have "doc_at h' this = Some (d2\<lparr>doneResolving := True\<rparr>)"
    by (simp add: doc_at_put_doc)
  ultimately show ?thesis by blast
qed

lemma resolve_unfold: "resolve n = resolve_body (case n of 0 \<Rightarrow> (\<lambda>h t. None) | Suc m \<Rightarrow> resolve m)"
  by (cases n) simp_all

lemma call_frames_any: "call_frames (case n of 0 \<Rightarrow> (\<lambda>h t. None) | Suc m \<Rightarrow> resolve m)"
  by (cases n) (simp_all add: resolve_frame, simp add: call_frames_def)


text \<open>
  The constructor of \<open>Document\<close>, and three heaps: two documents that import each other
  (with the two \<open>Import\<close> features their scanned imports resolve to, and an element of
  the second document), a document that is resolved, and one whose resolution has begun.
\<close>

definition new_Document :: "string \<Rightarrow> bool \<Rightarrow> string \<Rightarrow> ScannedFeature list \<Rightarrow> Document" where
  "new_Document u inline t scanned =
     \<lparr>doc_url = u, isInline = inline, doc_type = t, scannedFeatures = scanned,
      localFeatures = [], begunResolving = False, doneResolving = False,
      featuresByKind = None, featuresByKindAndId = None\<rparr>"

definition cyclic_heap :: heap where
  "cyclic_heap =
     [Doc (new_Document ''a.html'' False ''html''
             [\<lparr>resolvable = True, resolve_calls = [1], resolve_result = Inr (Some 2)\<rparr>]),
      Doc (new_Document ''b.html'' False ''html''
             [\<lparr>resolvable = True, resolve_calls = [0], resolve_result = Inr (Some 3)\<rparr>,
              \<lparr>resolvable = True, resolve_calls = [], resolve_result = Inr (Some 4)\<rparr>]),
      Imp \<lparr>import_type = ''html-import'', import_url = ''b.html'', document = 1\<rparr>,
      Imp \<lparr>import_type = ''html-import'', import_url = ''a.html'', document = 0\<rparr>,
      Plain \<lparr>kinds = [''element'', ''polymer-element''], identifiers = [''x-el'', ''El'']\<rparr>]"

definition done_heap :: heap where
  "done_heap =
     [Doc ((new_Document ''c.html'' False ''html'' [])
             \<lparr>localFeatures := [0], begunResolving := True, doneResolving := True\<rparr>)]"

definition begun_heap :: heap where
  "begun_heap =
     [Doc ((new_Document ''c.html'' False ''html'' [])
             \<lparr>localFeatures := [0], begunResolving := True\<rparr>)]"

text \<open>
  C3: \<open>Document.resolve\<close> has three states. On a document that is done it throws. On a
  document whose resolution has begun and is not done it returns at once and changes
  nothing. Otherwise, when it returns, the document has begun and is done, and its local
  features are the document itself and then what its resolvable scanned features resolved
  to, in order. Resolving terminates: given a nesting depth of the number of objects of
  the heap, the call returns or throws, whatever calls of \<open>resolve\<close> the features make
  (also back into documents that are being resolved, as in a cycle of imports).
\<close>

theorem resolve_three_states:
  "doc_at h this = Some d \<longrightarrow>
     (doneResolving d \<longrightarrow>
        resolve n h this = Some (Inl (Error ''resolve can only be called once''))) \<and>
     (begunResolving d \<and> \<not> doneResolving d \<longrightarrow> resolve n h this = Some (Inr h)) \<and>
     (\<not> begunResolving d \<and> \<not> doneResolving d \<longrightarrow>
        (\<forall>h'. resolve n h this = Some (Inr h') \<longrightarrow>
           (\<exists>d'. doc_at h' this = Some d' \<and> begunResolving d' \<and> doneResolving d' \<and>
                 localFeatures d' =
                   fold set_add (this # resolved_features (scannedFeatures d)) (localFeatures d)))) \<and>
     (length h \<le> n \<longrightarrow> (\<exists>r. resolve n h this = Some r))"
proof (intro impI conjI allI)
  assume d: "doc_at h this = Some d"
  {
    assume "doneResolving d"
    with d show "resolve n h this = Some (Inl (Error ''resolve can only be called once''))"
      by (simp add: resolve_unfold[of n] resolve_body_def)
  }
  {
    assume "begunResolving d \<and> \<not> doneResolving d"
    with d show "resolve n h this = Some (Inr h)"
      by (simp add: resolve_unfold[of n] resolve_body_def)
  }
  {
    fix h' assume f: "\<not> begunResolving d \<and> \<not> doneResolving d"
      and r: "resolve n h this = Some (Inr h')"
    from r have "resolve_body (case n of 0 \<Rightarrow> (\<lambda>h t. None) | Suc m \<Rightarrow> resolve m) h this = Some (Inr h')"
      using resolve_unfold[of n] by simp
    from resolve_body_fresh[OF call_frames_any d _ _ this] f
    show "\<exists>d'. doc_at h' this = Some d' \<and> begunResolving d' \<and> doneResolving d' \<and>
                 localFeatures d' =
                   fold set_add (this # resolved_features (scannedFeatures d)) (localFeatures d)"
      by simp
  }
  {
    assume "length h \<le> n"
    with unbegun_le_length[of h] have "unbegun h \<le> n" by simp
    from call_returnsD[OF resolve_returns this] show "\<exists>r. resolve n h this = Some r" .
  }
qed

theorem resolve_three_states_witness:
  "(\<exists>h' d'. resolve 5 cyclic_heap 0 = Some (Inr h') \<and> doc_at h' 0 = Some d' \<and>
      begunResolving d' \<and> doneResolving d' \<and> localFeatures d' = [0, 2]) \<and>
   resolve 1 done_heap 0 = Some (Inl (Error ''resolve can only be called once'')) \<and>
   resolve 1 begun_heap 0 = Some (Inr begun_heap)"
proof -
  let ?a = "new_Document ''a.html'' False ''html''
             [\<lparr>resolvable = True, resolve_calls = [1], resolve_result = Inr (Some 2)\<rparr>]"
  have a: "doc_at cyclic_heap 0 = Some ?a" by code_simp
  have fa: "\<not> begunResolving ?a \<and> \<not> doneResolving ?a" by (simp add: new_Document_def)
  have la: "length cyclic_heap \<le> 5" by (simp add: cyclic_heap_def)
  have ra: "fold set_add (0 # resolved_features (scannedFeatures ?a)) (localFeatures ?a) = [0, 2]"
    by code_simp
  have "case resolve 5 cyclic_heap 0 of Some (Inr h') \<Rightarrow> True | _ \<Rightarrow> False" by code_simp
  then obtain h' where h': "resolve 5 cyclic_heap 0 = Some (Inr h')"
    by (auto split: option.splits sum.splits)
  from resolve_three_states[of cyclic_heap 0 ?a 5] a fa la h' ra
  have 1: "\<exists>d'. doc_at h' 0 = Some d' \<and> begunResolving d' \<and> doneResolving d' \<and>
             localFeatures d' = [0, 2]" by simp
  let ?c = "(new_Document ''c.html'' False ''html'' [])
             \<lparr>localFeatures := [0], begunResolving := True, doneResolving := True\<rparr>"
  have c: "doc_at done_heap 0 = Some ?c" by code_simp
  from resolve_three_states[of done_heap 0 ?c 1] c
  have 2: "resolve 1 done_heap 0 = Some (Inl (Error ''resolve can only be called once''))"
    by simp
  let ?b = "(new_Document ''c.html'' False ''html'' [])
             \<lparr>localFeatures := [0], begunResolving := True\<rparr>"
  have b: "doc_at begun_heap 0 = Some ?b" by code_simp
  have fb: "begunResolving ?b \<and> \<not> doneResolving ?b" by (simp add: new_Document_def)
  from resolve_three_states[of begun_heap 0 ?b 1] b fb
  have 3: "resolve 1 begun_heap 0 = Some (Inr begun_heap)" by simp
  from 1 2 3 h' show ?thesis by blast
qed


subsection \<open>When the indexes are built\<close>

lemma buildIndexes_not_done:
  assumes "doc_at h this = Some d" and "\<not> doneResolving d"
  shows "\<exists>msg. buildIndexes n h this = Some (Inl (Error msg))"
  using assms by (simp add: buildIndexes_def)

lemma buildIndexes_twice:
  assumes "doc_at h this = Some d" and "featuresByKind d \<noteq> None"
  shows "buildIndexes n h this =
    Some (Inl (Error ''Tried to build indexes multiple times. This should never happen.''))"
  using assms by (simp add: buildIndexes_def)

text \<open>\<open>only_changes t h h'\<close>: the heaps differ at most in the object \<open>t\<close>.\<close>

definition only_changes :: "ref \<Rightarrow> heap \<Rightarrow> heap \<Rightarrow> bool" where
  "only_changes t h h' = (length h' = length h \<and> (\<forall>r. r \<noteq> t \<longrightarrow> deref h' r = deref h r))"

lemma only_changes_refl: "only_changes t h h"
  by (simp add: only_changes_def)

lemma only_changes_trans: "only_changes t h h1 \<Longrightarrow> only_changes t h1 h2 \<Longrightarrow> only_changes t h h2"
  by (simp add: only_changes_def)

lemma only_changes_put_doc: "only_changes t h (put_doc h t d')"
  by (simp add: only_changes_def length_put_doc deref_put_doc)

lemma index_all_only_changes: "index_all h this features = Inr h' \<Longrightarrow> only_changes this h h'"
proof (induction features arbitrary: h)
  case Nil
  then show ?case by (simp add: only_changes_refl)
next
  case (Cons feature rest)
  from Cons.prems obtain d d1 where "doc_at h this = Some d" "indexFeature h d feature = Inr d1"
    and r: "index_all (put_doc h this d1) this rest = Inr h'"
    by (auto split: option.splits sum.splits)
  from only_changes_trans[OF only_changes_put_doc Cons.IH[OF r]] show ?case .
qed

lemma buildIndexes_only_changes:
  assumes "buildIndexes n h this = Some (Inr h')"
  shows "only_changes this h h'"
proof -
  from assms obtain d where d: "doc_at h this = Some d"
    by (cases "doc_at h this") (simp_all add: buildIndexes_def)
  let ?h1 = "put_doc h this (d\<lparr>featuresByKind := Some [], featuresByKindAndId := Some []\<rparr>)"
  from assms d obtain features where "index_all ?h1 this features = Inr h'"
    by (auto simp add: buildIndexes_def split: option.splits if_splits sum.splits)
  from only_changes_trans[OF only_changes_put_doc index_all_only_changes[OF this]]
  show ?thesis .
qed

lemma getByKind_indexed:
  assumes "doc_at h this = Some d" and "featuresByKind d = Some byKind"
  shows "getByKind n h this kind = Some (Inr (get_or_empty byKind kind, h))"
  using assms by (simp add: getByKind.simps[of n h this kind])

lemma getByKind_Inr:
  assumes g: "getByKind n h this kind = Some (Inr (r, h'))"
  shows "\<exists>d. doc_at h this = Some d \<and>
           (h' = h \<or> (featuresByKind d = None \<and> doneResolving d \<and>
                        buildIndexes n h this = Some (Inr h'))) \<and>
           (featuresByKind d \<noteq> None \<or> \<not> doneResolving d \<longrightarrow> h' = h) \<and>
           (featuresByKind d \<noteq> None \<or> doneResolving d \<longrightarrow>
              (\<exists>d' byKind. doc_at h' this = Some d' \<and> doneResolving d' = doneResolving d \<and>
                 featuresByKind d' = Some byKind \<and> r = get_or_empty byKind kind))"
proof -
  from g obtain d where d: "doc_at h this = Some d"
    by (cases "doc_at h this") (simp_all add: getByKind.simps[of n h this kind])
  show ?thesis
  proof (cases "featuresByKind d")
    case (Some byKind)
    with g d have "h' = h" "r = get_or_empty byKind kind"
      by (simp_all add: getByKind.simps[of n h this kind])
    with d Some show ?thesis by auto
  next
    case None
    show ?thesis
    proof (cases "doneResolving d")
      case False
      with g d None have "h' = h"
        by (auto simp add: getByKind.simps[of n h this kind] split: option.splits sum.splits)
      with d None False show ?thesis by auto
    next
      case True
      with g d None obtain h1 where b: "buildIndexes n h this = Some (Inr h1)"
        and g1: "getByKind n h1 this kind = Some (Inr (r, h'))"
        by (auto simp add: getByKind.simps[of n h this kind] split: option.splits sum.splits)
      from buildIndexes_index[OF b] obtain d1 byKind where d1: "doc_at h1 this = Some d1"
        "featuresByKind d1 = Some byKind" "doneResolving d1" by auto
      from getByKind_indexed[OF d1(1,2), of n kind] g1
      have "h' = h1" "r = get_or_empty byKind kind" by simp_all
      with d None True b d1 show ?thesis by auto
    qed
  qed
qed

lemma getById_Inr:
  assumes g: "getById n h this kind ident = Some (Inr (r, h'))"
  shows "\<exists>d. doc_at h this = Some d \<and>
           (h' = h \<or> (featuresByKind d = None \<and> doneResolving d \<and>
                        buildIndexes n h this = Some (Inr h'))) \<and>
           (featuresByKindAndId d \<noteq> None \<or> \<not> doneResolving d \<longrightarrow> h' = h)"
proof -
  from g obtain d where d: "doc_at h this = Some d"
    by (cases "doc_at h this") (simp_all add: getById.simps[of n h this kind ident])
  show ?thesis
  proof (cases "featuresByKindAndId d")
    case (Some byKindAndId)
    with g d have "h' = h" by (simp add: getById.simps[of n h this kind ident])
    with d show ?thesis by simp
  next
    case None
    show ?thesis
    proof (cases "doneResolving d")
      case False
      with g d None obtain ofKind where "getByKind n h this kind = Some (Inr (ofKind, h'))"
        by (auto simp add: getById.simps[of n h this kind ident] split: option.splits sum.splits)
      from getByKind_Inr[OF this] d False have "h' = h" by auto
      with d show ?thesis by simp
    next
      case True
      with g d None obtain h1 where b: "buildIndexes n h this = Some (Inr h1)"
        and g1: "getById n h1 this kind ident = Some (Inr (r, h'))"
        by (auto simp add: getById.simps[of n h this kind ident] split: option.splits sum.splits)
      from buildIndexes_index[OF b] obtain d1 m where d1: "doc_at h1 this = Some d1"
        "featuresByKindAndId d1 = Some m" by auto
      with g1 have "h' = h1" by (simp add: getById.simps[of n h1 this kind ident])
      moreover from b d have "featuresByKind d = None"
        by (cases "featuresByKind d") (simp_all add: buildIndexes_def)
      ultimately show ?thesis using d None True b by auto
    qed
  qed
qed


lemma getOnlyAtId_Inr:
  assumes "getOnlyAtId n h this kind ident = Some (Inr (r, h'))"
  shows "\<exists>results. getById n h this kind ident = Some (Inr (results, h'))"
  using assms by (auto simp add: getOnlyAtId_def split: option.splits sum.splits if_splits)

text \<open>
  One call, from outside, of a method of a document that may change a document, where
  the call returns: \<open>resolve\<close>, \<open>_addFeature\<close>, \<open>_buildIndexes\<close>, \<open>getByKind\<close>, \<open>getById\<close>
  or \<open>getOnlyAtId\<close>, on any document \<open>t\<close> and with any arguments. (The other methods of
  the class write no field.)
\<close>

inductive document_call :: "heap \<Rightarrow> heap \<Rightarrow> bool" where
  call_resolve: "resolve n h t = Some (Inr h') \<Longrightarrow> document_call h h'"
| call_addFeature: "addFeature h t feature = Inr h' \<Longrightarrow> document_call h h'"
| call_buildIndexes: "buildIndexes n h t = Some (Inr h') \<Longrightarrow> document_call h h'"
| call_getByKind: "getByKind n h t kind = Some (Inr (r, h')) \<Longrightarrow> document_call h h'"
| call_getById: "getById n h t kind ident = Some (Inr (r, h')) \<Longrightarrow> document_call h h'"
| call_getOnlyAtId: "getOnlyAtId n h t kind ident = Some (Inr (f, h')) \<Longrightarrow> document_call h h'"

text \<open>
  Every document of the heap that has an index is done resolving. It holds of a heap of
  new documents, whose indexes are \<open>null\<close>.
\<close>

definition indexes_after_done :: "heap \<Rightarrow> bool" where
  "indexes_after_done h =
     list_all (\<lambda>ob. case ob of
                 Doc d \<Rightarrow> featuresByKind d = None \<and> featuresByKindAndId d = None \<or> doneResolving d
               | _ \<Rightarrow> True) h"

lemma indexes_after_done_iff:
  "indexes_after_done h \<longleftrightarrow>
     (\<forall>r d. doc_at h r = Some d \<longrightarrow>
        featuresByKind d = None \<and> featuresByKindAndId d = None \<or> doneResolving d)"
proof
  assume i: "indexes_after_done h"
  show "\<forall>r d. doc_at h r = Some d \<longrightarrow>
        featuresByKind d = None \<and> featuresByKindAndId d = None \<or> doneResolving d"
  proof (intro allI impI)
    fix r d assume "doc_at h r = Some d"
    then have "r < length h" "h ! r = Doc d"
      by (auto simp add: doc_at_def deref_def split: if_splits obj.splits)
    with i show "featuresByKind d = None \<and> featuresByKindAndId d = None \<or> doneResolving d"
      by (auto simp add: indexes_after_done_def list_all_length)
  qed
next
  assume a: "\<forall>r d. doc_at h r = Some d \<longrightarrow>
        featuresByKind d = None \<and> featuresByKindAndId d = None \<or> doneResolving d"
  show "indexes_after_done h"
    unfolding indexes_after_done_def list_all_length
  proof (intro allI impI)
    fix r assume r: "r < length h"
    show "case h ! r of Doc d \<Rightarrow> featuresByKind d = None \<and> featuresByKindAndId d = None \<or> doneResolving d
               | _ \<Rightarrow> True"
    proof (cases "h ! r")
      case (Doc d)
      with r have "doc_at h r = Some d" by (simp add: doc_at_def deref_def)
      with a Doc show ?thesis by auto
    qed simp_all
  qed
qed

lemma only_changes_doc_at: "only_changes t h h' \<Longrightarrow> r \<noteq> t \<Longrightarrow> doc_at h' r = doc_at h r"
  by (simp add: only_changes_def doc_at_def)

lemma buildIndexes_Inr:
  assumes "buildIndexes n h t = Some (Inr h')"
  shows "\<exists>d d'. doc_at h t = Some d \<and> featuresByKind d = None \<and> doneResolving d \<and>
           doc_at h' t = Some d' \<and> featuresByKind d' \<noteq> None \<and> featuresByKindAndId d' \<noteq> None \<and>
           doneResolving d' \<and> only_changes t h h'"
proof -
  from assms obtain d where d: "doc_at h t = Some d"
    by (cases "doc_at h t") (simp_all add: buildIndexes_def)
  from assms d have "featuresByKind d = None" "doneResolving d"
    by (auto simp add: buildIndexes_def split: if_splits)
  with d buildIndexes_index[OF assms] buildIndexes_only_changes[OF assms] show ?thesis by auto
qed

text \<open>What a call changes: one of three things.\<close>

lemma document_call_cases:
  assumes "document_call h h'"
  shows "frame h h' \<or> h' = h \<or>
         (\<exists>t d d'. doc_at h t = Some d \<and> \<not> doneResolving d \<and> h' = put_doc h t d' \<and>
             doneResolving d' = doneResolving d \<and> same_index d d') \<or>
         (\<exists>n t. buildIndexes n h t = Some (Inr h'))"
  using assms
proof cases
  case (call_resolve n t)
  from call_framesD[OF resolve_frame this] show ?thesis by simp
next
  case (call_addFeature t feature)
  from addFeature_Inr[OF this] obtain d d' where a: "doc_at h t = Some d" "h' = put_doc h t d'"
    "\<not> doneResolving d" "doneResolving d' = doneResolving d"
    and s: "(featuresByKind d' = None) = (featuresByKind d = None)"
      "(featuresByKindAndId d' = None) = (featuresByKindAndId d = None)"
    by (elim exE conjE)
  from s have "same_index d d'" by (simp add: same_index_def)
  with a show ?thesis by blast
next
  case (call_buildIndexes n t)
  then show ?thesis by blast
next
  case (call_getByKind n t kind r)
  from getByKind_Inr[OF this] show ?thesis by blast
next
  case (call_getById n t kind ident r)
  from getById_Inr[OF this] show ?thesis by blast
next
  case (call_getOnlyAtId n t kind ident f)
  from getOnlyAtId_Inr[OF this] obtain results where
    "getById n h t kind ident = Some (Inr (results, h'))" by blast
  from getById_Inr[OF this] show ?thesis by blast
qed

lemma document_call_settled:
  assumes c: "document_call h h'" and d: "doc_at h this = Some d" and dn: "doneResolving d"
    and i: "featuresByKind d \<noteq> None"
  shows "doc_at h' this = Some d"
proof -
  from d dn have nf: "\<not> fresh h this" by (simp add: fresh_def)
  from document_call_cases[OF c] consider
    (frame) "frame h h'" | (same) "h' = h"
    | (put) t dt dt' where "doc_at h t = Some dt" "\<not> doneResolving dt" "h' = put_doc h t dt'"
    | (build) n t where "buildIndexes n h t = Some (Inr h')" by blast
  then show ?thesis
  proof cases
    case frame
    from doc_at_deref[OF frameD_other[OF frame nf]] d show ?thesis by simp
  next
    case same
    with d show ?thesis by simp
  next
    case put
    with d dn have "t \<noteq> this" by auto
    with put d show ?thesis by (simp add: doc_at_put_doc)
  next
    case build
    from buildIndexes_Inr[OF build] obtain dt where dt: "doc_at h t = Some dt"
      "featuresByKind dt = None" and o: "only_changes t h h'" by blast
    from dt d i have "this \<noteq> t" by auto
    from only_changes_doc_at[OF o this] d show ?thesis by simp
  qed
qed

lemma document_calls_settled:
  assumes "document_call\<^sup>*\<^sup>* h h'" and "doc_at h this = Some d" and "doneResolving d"
    and "featuresByKind d \<noteq> None"
  shows "doc_at h' this = Some d"
  using assms
proof (induction rule: rtranclp_induct)
  case base
  then show ?case by simp
next
  case (step y z)
  from document_call_settled[OF step.hyps(2) step.IH[OF step.prems] step.prems(2,3)]
  show ?case .
qed

lemma document_call_invariant:
  assumes c: "document_call h h'" and inv: "indexes_after_done h"
  shows "indexes_after_done h'"
  unfolding indexes_after_done_iff
proof (intro allI impI)
  fix r d' assume d': "doc_at h' r = Some d'"
  note I = inv[unfolded indexes_after_done_iff, rule_format]
  from document_call_cases[OF c] consider
    (frame) "frame h h'" | (same) "h' = h"
    | (put) t dt dt' where "doc_at h t = Some dt" "h' = put_doc h t dt'"
        "doneResolving dt' = doneResolving dt" "same_index dt dt'"
    | (build) n t where "buildIndexes n h t = Some (Inr h')" by blast
  then show "featuresByKind d' = None \<and> featuresByKindAndId d' = None \<or> doneResolving d'"
  proof cases
    case frame
    show ?thesis
    proof (cases "fresh h r")
      case True
      from frameD_fresh[OF frame True] d' obtain d where d: "doc_at h r = Some d"
        and s: "same_index d d'" by auto
      from True d have "\<not> doneResolving d" by (simp add: fresh_def)
      with I[OF d] s show ?thesis by (simp add: same_index_def)
    next
      case False
      from doc_at_deref[OF frameD_other[OF frame False]] d' I show ?thesis by simp
    qed
  next
    case same
    with d' I show ?thesis by simp
  next
    case put
    show ?thesis
    proof (cases "r = t")
      case True
      with put d' have "d' = dt'" by (simp add: doc_at_put_doc)
      with I[OF put(1)] put(3,4) show ?thesis by (auto simp add: same_index_def)
    next
      case False
      with put d' I show ?thesis by (simp add: doc_at_put_doc)
    qed
  next
    case build
    from buildIndexes_Inr[OF build] obtain dt' where dt: "doc_at h' t = Some dt'"
      "doneResolving dt'" and o: "only_changes t h h'" by blast
    show ?thesis
    proof (cases "r = t")
      case True
      with dt d' show ?thesis by simp
    next
      case False
      from only_changes_doc_at[OF o False] d' I show ?thesis by simp
    qed
  qed
qed

lemma document_calls_invariant:
  assumes "document_call\<^sup>*\<^sup>* h h'" and "indexes_after_done h"
  shows "indexes_after_done h'"
  using assms by (induction rule: rtranclp_induct) (auto intro: document_call_invariant)

lemma buildIndexes_early:
  assumes "doc_at h this = Some d" and "\<not> doneResolving d"
  shows "buildIndexes n h this =
    Some (Inl (Error (if featuresByKind d = None
       then ''Tried to build indexes before finished resolving. '' @
            ''Need to wait until afterwards or the indexes would be incomplete.''
       else ''Tried to build indexes multiple times. This should never happen.'')))"
  using assms by (simp add: buildIndexes_def)

lemma buildIndexes_once:
  assumes b: "buildIndexes n h this = Some (Inr h')" and c: "document_call\<^sup>*\<^sup>* h' h3"
    and d: "doc_at h this = Some d"
  shows "doneResolving d \<and> featuresByKind d = None \<and>
     buildIndexes m h3 this =
       Some (Inl (Error ''Tried to build indexes multiple times. This should never happen.''))"
proof -
  from buildIndexes_Inr[OF b] d obtain d' where 1: "featuresByKind d = None" "doneResolving d"
    and d': "doc_at h' this = Some d'" "doneResolving d'" "featuresByKind d' \<noteq> None"
    by auto
  from document_calls_settled[OF c d'] have "doc_at h3 this = Some d'" .
  from buildIndexes_twice[OF this d'(3)] 1 show ?thesis by simp
qed

lemma getByKind_not_done:
  assumes "doc_at h this = Some d" and "\<not> doneResolving d"
    and "getByKind n h this kind = Some (Inr (r, h'))"
  shows "h' = h"
  using getByKind_Inr[OF assms(3)] assms(1,2) by auto

lemma getByKind_stable:
  assumes d: "doc_at h this = Some d" and dn: "doneResolving d"
    and g: "getByKind n h this kind = Some (Inr (r, h1))" and c: "document_call\<^sup>*\<^sup>* h1 h3"
  shows "getByKind m h3 this kind = Some (Inr (r, h3))"
proof -
  from getByKind_Inr[OF g] d dn obtain d' byKind where d': "doc_at h1 this = Some d'"
    and dn': "doneResolving d'" and i: "featuresByKind d' = Some byKind"
    and r: "r = get_or_empty byKind kind" by auto
  from i have "featuresByKind d' \<noteq> None" by simp
  from document_calls_settled[OF c d' dn' this] have "doc_at h3 this = Some d'" .
  from getByKind_indexed[OF this i] r show ?thesis by simp
qed

text \<open>
  A document that is done and has no index yet beside a new document; the same heap
  after \<open>getByKind\<close> on the first document; and after \<open>resolve\<close> on the second.
\<close>

definition two_docs_heap :: heap where
  "two_docs_heap = done_heap @ [Doc (new_Document ''d.html'' False ''html'' [])]"

definition indexed_heap :: heap where
  "indexed_heap =
     [Doc ((new_Document ''c.html'' False ''html'' [])
             \<lparr>localFeatures := [0], begunResolving := True, doneResolving := True,
              featuresByKind := Some [(''document'', [0]), (''html-document'', [0])],
              featuresByKindAndId :=
                Some [(''document'', [(''c.html'', [0])]),
                      (''html-document'', [(''c.html'', [0])])]\<rparr>),
      Doc (new_Document ''d.html'' False ''html'' [])]"

definition later_heap :: heap where
  "later_heap =
     [Doc ((new_Document ''c.html'' False ''html'' [])
             \<lparr>localFeatures := [0], begunResolving := True, doneResolving := True,
              featuresByKind := Some [(''document'', [0]), (''html-document'', [0])],
              featuresByKindAndId :=
                Some [(''document'', [(''c.html'', [0])]),
                      (''html-document'', [(''c.html'', [0])])]\<rparr>),
      Doc ((new_Document ''d.html'' False ''html'' [])
             \<lparr>localFeatures := [1], begunResolving := True, doneResolving := True\<rparr>)]"

text \<open>
  C4: the indexes of a document are built only after it is done resolving, and at most
  once; so \<open>getByKind\<close> of a document that is done is stable. Precisely:
  that every document with an index is done is kept by every sequence of calls;
  on a document that is not done \<open>_buildIndexes\<close> throws and \<open>getByKind\<close> leaves the heap as
  it is; on a document that has \<open>_featuresByKind\<close>, \<open>_buildIndexes\<close> throws; when
  \<open>_buildIndexes\<close> returns, the document was done and had no index, and after any further
  calls \<open>_buildIndexes\<close> on it throws; on a document that is done, \<open>getByKind(kind)\<close>
  returns or throws when given a nesting depth of the number of objects of the heap, and
  once it has returned a set, it returns that set again, with no change of the heap, after
  any sequence of calls.
\<close>

theorem indexes_built_once_after_resolving:
  "(indexes_after_done h \<and> document_call\<^sup>*\<^sup>* h h3 \<longrightarrow> indexes_after_done h3) \<and>
   (doc_at h this = Some d \<longrightarrow>
     (\<not> doneResolving d \<longrightarrow>
        buildIndexes n h this =
          Some (Inl (Error (if featuresByKind d = None
             then ''Tried to build indexes before finished resolving. '' @
                  ''Need to wait until afterwards or the indexes would be incomplete.''
             else ''Tried to build indexes multiple times. This should never happen.''))) \<and>
        (\<forall>r h'. getByKind n h this kind = Some (Inr (r, h')) \<longrightarrow> h' = h)) \<and>
     (featuresByKind d \<noteq> None \<longrightarrow>
        buildIndexes n h this =
          Some (Inl (Error ''Tried to build indexes multiple times. This should never happen.''))) \<and>
     (\<forall>h1. buildIndexes n h this = Some (Inr h1) \<and> document_call\<^sup>*\<^sup>* h1 h3 \<longrightarrow>
        doneResolving d \<and> featuresByKind d = None \<and>
        buildIndexes m h3 this =
          Some (Inl (Error ''Tried to build indexes multiple times. This should never happen.''))) \<and>
     (doneResolving d \<longrightarrow>
        (length h \<le> n \<longrightarrow> (\<exists>res. getByKind n h this kind = Some res)) \<and>
        (\<forall>r h1. getByKind n h this kind = Some (Inr (r, h1)) \<and> document_call\<^sup>*\<^sup>* h1 h3 \<longrightarrow>
           getByKind m h3 this kind = Some (Inr (r, h3)))))"
proof (intro conjI impI allI)
  assume "indexes_after_done h \<and> document_call\<^sup>*\<^sup>* h h3"
  then show "indexes_after_done h3" using document_calls_invariant by blast
next
  assume "doc_at h this = Some d" "\<not> doneResolving d"
  then show "buildIndexes n h this =
          Some (Inl (Error (if featuresByKind d = None
             then ''Tried to build indexes before finished resolving. '' @
                  ''Need to wait until afterwards or the indexes would be incomplete.''
             else ''Tried to build indexes multiple times. This should never happen.'')))"
    by (rule buildIndexes_early)
next
  fix r h'
  assume "doc_at h this = Some d" "\<not> doneResolving d"
    "getByKind n h this kind = Some (Inr (r, h'))"
  then show "h' = h" by (rule getByKind_not_done)
next
  assume "doc_at h this = Some d" "featuresByKind d \<noteq> None"
  then show "buildIndexes n h this =
          Some (Inl (Error ''Tried to build indexes multiple times. This should never happen.''))"
    by (rule buildIndexes_twice)
next
  fix h1
  assume d: "doc_at h this = Some d"
    and "buildIndexes n h this = Some (Inr h1) \<and> document_call\<^sup>*\<^sup>* h1 h3"
  then have b: "buildIndexes n h this = Some (Inr h1)" and c: "document_call\<^sup>*\<^sup>* h1 h3"
    by simp_all
  from buildIndexes_once[OF b c d, of m]
  show "doneResolving d" "featuresByKind d = None"
    "buildIndexes m h3 this =
          Some (Inl (Error ''Tried to build indexes multiple times. This should never happen.''))"
    by simp_all
next
  assume "length h \<le> n"
  then show "\<exists>res. getByKind n h this kind = Some res" by (rule getByKind_returns)
next
  fix r h1
  assume d: "doc_at h this = Some d" "doneResolving d"
    and "getByKind n h this kind = Some (Inr (r, h1)) \<and> document_call\<^sup>*\<^sup>* h1 h3"
  then have g: "getByKind n h this kind = Some (Inr (r, h1))" and c: "document_call\<^sup>*\<^sup>* h1 h3"
    by simp_all
  from getByKind_stable[OF d g c] show "getByKind m h3 this kind = Some (Inr (r, h3))" .
qed

theorem indexes_built_once_after_resolving_witness:
  "buildIndexes 5 cyclic_heap 0 =
     Some (Inl (Error (''Tried to build indexes before finished resolving. '' @
                       ''Need to wait until afterwards or the indexes would be incomplete.''))) \<and>
   getByKind 2 two_docs_heap 0 ''document'' = Some (Inr ([0], indexed_heap)) \<and>
   buildIndexes 2 indexed_heap 0 =
     Some (Inl (Error ''Tried to build indexes multiple times. This should never happen.'')) \<and>
   resolve 2 indexed_heap 1 = Some (Inr later_heap) \<and>
   getByKind 0 later_heap 0 ''document'' = Some (Inr ([0], later_heap)) \<and>
   indexes_after_done two_docs_heap \<and> indexes_after_done later_heap"
proof -
  let ?a = "new_Document ''a.html'' False ''html''
              [\<lparr>resolvable = True, resolve_calls = [1], resolve_result = Inr (Some 2)\<rparr>]"
  let ?c = "(new_Document ''c.html'' False ''html'' [])
             \<lparr>localFeatures := [0], begunResolving := True, doneResolving := True\<rparr>"
  let ?i = "(new_Document ''c.html'' False ''html'' [])
             \<lparr>localFeatures := [0], begunResolving := True, doneResolving := True,
              featuresByKind := Some [(''document'', [0]), (''html-document'', [0])],
              featuresByKindAndId :=
                Some [(''document'', [(''c.html'', [0])]),
                      (''html-document'', [(''c.html'', [0])])]\<rparr>"
  have a: "doc_at cyclic_heap 0 = Some ?a" "\<not> doneResolving ?a" "featuresByKind ?a = None"
    by code_simp+
  have c: "doc_at two_docs_heap 0 = Some ?c" "doneResolving ?c" by code_simp+
  have i: "doc_at indexed_heap 0 = Some ?i" "featuresByKind ?i \<noteq> None" by code_simp+
  have g: "getByKind 2 two_docs_heap 0 ''document'' = Some (Inr ([0], indexed_heap))"
    by code_simp
  have r: "resolve 2 indexed_heap 1 = Some (Inr later_heap)" by code_simp
  have inv: "indexes_after_done two_docs_heap" by code_simp
  from call_resolve[OF r] have s: "document_call\<^sup>*\<^sup>* indexed_heap later_heap" by (rule r_into_rtranclp)
  from call_getByKind[OF g] s have s2: "document_call\<^sup>*\<^sup>* two_docs_heap later_heap"
    by (rule converse_rtranclp_into_rtranclp)
  note A = indexes_built_once_after_resolving[where h = cyclic_heap and this = 0 and d = ?a
      and n = 5]
  from A a(1,2) have "buildIndexes 5 cyclic_heap 0 =
     Some (Inl (Error (if featuresByKind ?a = None
             then ''Tried to build indexes before finished resolving. '' @
                  ''Need to wait until afterwards or the indexes would be incomplete.''
             else ''Tried to build indexes multiple times. This should never happen.'')))"
    by blast
  then have 1: "buildIndexes 5 cyclic_heap 0 =
     Some (Inl (Error (''Tried to build indexes before finished resolving. '' @
                       ''Need to wait until afterwards or the indexes would be incomplete.'')))"
    by (simp only: a(3) if_True simp_thms)
  note B = indexes_built_once_after_resolving[where h = indexed_heap and this = 0 and d = ?i
      and n = 2]
  from B i have 2: "buildIndexes 2 indexed_heap 0 =
     Some (Inl (Error ''Tried to build indexes multiple times. This should never happen.''))"
    by blast
  note T = indexes_built_once_after_resolving[where h = two_docs_heap and this = 0 and d = ?c
      and n = 2 and m = 0 and kind = "''document''" and ?h3.0 = later_heap]
  from T c g s have 3: "getByKind 0 later_heap 0 ''document'' = Some (Inr ([0], later_heap))"
    by blast
  from T inv s2 have 4: "indexes_after_done later_heap" by blast
  from 1 g 2 r 3 inv 4 show ?thesis by (intro conjI)
qed


subsection \<open>The only feature with an identifier\<close>
















text \<open>\<open>index_only d d'\<close>: the documents differ at most in their indexes.\<close>

definition index_only :: "Document \<Rightarrow> Document \<Rightarrow> bool" where
  "index_only d d' =
     (doc_url d' = doc_url d \<and> isInline d' = isInline d \<and> doc_type d' = doc_type d \<and>
      scannedFeatures d' = scannedFeatures d \<and> localFeatures d' = localFeatures d \<and>
      begunResolving d' = begunResolving d \<and> doneResolving d' = doneResolving d)"

lemma index_only_refl: "index_only d d"
  by (simp add: index_only_def)

lemma index_only_trans: "index_only d d1 \<Longrightarrow> index_only d1 d2 \<Longrightarrow> index_only d d2"
  by (simp add: index_only_def)


































section \<open>References (src/model/reference.ts)\<close>

text \<open>
  \<open>Severity\<close> and the fields that the constructor of \<open>Warning\<close> is given.
\<close>

datatype Severity = ERROR | WARNING | INFO

record 'pd Warning =
  warning_code :: string
  warning_sourceRange :: SourceRange
  warning_message :: string
  warning_parsedDocument :: 'pd
  warning_severity :: Severity

text \<open>
  The fields of a \<open>ScannedReference\<close> that \<open>resolveWithKind\<close> reads, and the fields of
  the \<open>Reference\<close> it makes (whose \<open>kinds\<close> and \<open>identifiers\<close> are constant sets).
  \<open>None\<close> is \<open>undefined\<close>.
\<close>

record ('path, 'pd) ScannedReference =
  sr_identifier :: string
  sr_kind :: string
  sr_sourceRange :: "SourceRange option"
  sr_astPath :: 'path
  sr_warnings :: "'pd Warning list"

record ('f, 'pd) Reference =
  ref_identifier :: string
  ref_sourceRange :: "SourceRange option"
  ref_feature :: "'f option"
  ref_warnings :: "'pd Warning list"

text \<open>
  What the file calls outside itself: \<open>astPath.scope.getBinding(identifier)\<close>,
  \<open>esutil.getCanonicalStatement(binding.path)\<close>, the two queries
  \<open>document.getFeatures({kind, statement})\<close> and
  \<open>document.getFeatures({imported: true, externalPackages: true, kind, id})\<close>, whose
  result sets are given as the list of their members in iteration order, and
  \<open>document.parsedDocument\<close>.
\<close>

record ('path, 'b, 'st, 'f, 'doc, 'pd) ReferenceDeps =
  scope_getBinding :: "'path \<Rightarrow> string \<Rightarrow> 'b option"
  getCanonicalStatement :: "'b \<Rightarrow> 'st option"
  getFeatures_by_statement :: "'doc \<Rightarrow> string \<Rightarrow> 'st \<Rightarrow> 'f list"
  getFeatures_by_id :: "'doc \<Rightarrow> string \<Rightarrow> string \<Rightarrow> 'f list"
  parsedDocument_of :: "'doc \<Rightarrow> 'pd"

text \<open>The constructor of \<open>Reference\<close>.\<close>

definition new_Reference ::
  "('path, 'pd) ScannedReference \<Rightarrow> 'f option \<Rightarrow> 'pd Warning list \<Rightarrow> ('f, 'pd) Reference" where
  "new_Reference scannedReference feature warns =
     \<lparr>ref_identifier = sr_identifier scannedReference,
      ref_sourceRange = sr_sourceRange scannedReference,
      ref_feature = feature, ref_warnings = warns\<rparr>"

text \<open>\<open>resolveBinding\<close>; \<open>None\<close> is a result that is not successful.\<close>

definition resolveBinding ::
  "('path, 'b, 'st, 'f, 'doc, 'pd) ReferenceDeps \<Rightarrow> 'b \<Rightarrow> 'doc \<Rightarrow> string \<Rightarrow> 'f option" where
  "resolveBinding deps binding doc kind =
     (case getCanonicalStatement deps binding of
        None \<Rightarrow> None
      | Some statement \<Rightarrow>
          (let features = getFeatures_by_statement deps doc kind statement
           in if length features > 1 then None
              else (case features of [] \<Rightarrow> None | feature # _ \<Rightarrow> Some feature)))"

text \<open>The scope-based lookup, the first block of \<open>resolveWithKind\<close>.\<close>

definition scope_lookup ::
  "('path, 'b, 'st, 'f, 'doc, 'pd) ReferenceDeps \<Rightarrow> ('path, 'pd) ScannedReference \<Rightarrow> 'doc \<Rightarrow>
   string \<Rightarrow> 'f option" where
  "scope_lookup deps this doc kind =
     (case scope_getBinding deps (sr_astPath this) (sr_identifier this) of
        None \<Rightarrow> None
      | Some binding \<Rightarrow> resolveBinding deps binding doc kind)"

text \<open>The warnings after the block \<open>if (this.sourceRange) { ... }\<close>.\<close>

definition global_lookup_warnings ::
  "('path, 'b, 'st, 'f, 'doc, 'pd) ReferenceDeps \<Rightarrow> ('path, 'pd) ScannedReference \<Rightarrow> 'doc \<Rightarrow>
   string \<Rightarrow> 'f list \<Rightarrow> 'pd Warning list \<Rightarrow> 'pd Warning list" where
  "global_lookup_warnings deps this doc kind features warns =
     (case sr_sourceRange this of
        None \<Rightarrow> warns
      | Some rng \<Rightarrow>
          if length features = 0
          then warns @
                 [\<lparr>warning_code = ''could-not-resolve-reference'',
                   warning_sourceRange = rng,
                   warning_message =
                     (''Could not resolve reference to '' @ sr_kind this) @
                     (if kind = ''behavior'' then ''. Is it annotated with @polymerBehavior?''
                      else []),
                   warning_parsedDocument = parsedDocument_of deps doc,
                   warning_severity = WARNING\<rparr>]
          else if length features > 1
          then warns @
                 [\<lparr>warning_code = ''multiple-global-declarations'',
                   warning_sourceRange = rng,
                   warning_message =
                     ''Multiple global declarations of '' @ sr_kind this @
                     '' with identifier '' @ sr_identifier this,
                   warning_parsedDocument = parsedDocument_of deps doc,
                   warning_severity = WARNING\<rparr>]
          else warns)"

text \<open>\<open>ScannedReference.resolveWithKind\<close> and \<open>ScannedReference.resolve\<close>.\<close>

definition resolveWithKind ::
  "('path, 'b, 'st, 'f, 'doc, 'pd) ReferenceDeps \<Rightarrow> ('path, 'pd) ScannedReference \<Rightarrow> 'doc \<Rightarrow>
   string \<Rightarrow> ('f, 'pd) Reference" where
  "resolveWithKind deps this doc kind =
     (let warns = sr_warnings this
      in case scope_lookup deps this doc kind of
           Some feature \<Rightarrow> new_Reference this (Some feature) warns
         | None \<Rightarrow>
             (let features = getFeatures_by_id deps doc kind (sr_identifier this)
              in new_Reference this
                   (case features of [] \<Rightarrow> None | feature # _ \<Rightarrow> Some feature)
                   (global_lookup_warnings deps this doc kind features warns)))"

definition resolve_reference ::
  "('path, 'b, 'st, 'f, 'doc, 'pd) ReferenceDeps \<Rightarrow> ('path, 'pd) ScannedReference \<Rightarrow> 'doc \<Rightarrow>
   ('f, 'pd) Reference" where
  "resolve_reference deps this doc = resolveWithKind deps this doc (sr_kind this)"








section \<open>The URL resolver (src/url-loader/url-resolver.ts)\<close>

text \<open>
  The fields of a parsed URL that \<open>simpleUrlRelative\<close> reads (\<open>None\<close> is \<open>null\<close> or
  \<open>undefined\<close>), and the object it hands to \<open>url.format\<close>.
\<close>

record ParsedUrl =
  url_protocol :: "string option"
  url_slashes :: "bool option"
  url_host :: "string option"
  url_auth :: "string option"
  url_pathname :: "string option"
  url_search :: "string option"
  url_hash :: "string option"

record UrlObject =
  obj_pathname :: string
  obj_search :: "string option"
  obj_hash :: "string option"

text \<open>
  What the resolver calls outside this file: \<open>parseUrl\<close> of \<open>core/utils\<close>, and Node's
  \<open>url.format\<close>, \<open>url.resolve\<close> (base first) and \<open>path.posix.relative\<close>.
\<close>

record UrlLib =
  core_parseUrl :: "string \<Rightarrow> ParsedUrl"
  urlLibFormat :: "UrlObject \<Rightarrow> string"
  urlLibResolver :: "string \<Rightarrow> string \<Rightarrow> string"
  posix_relative :: "string \<Rightarrow> string \<Rightarrow> string"

text \<open>\<open>simpleUrlResolve\<close>.\<close>

definition simpleUrlResolve :: "UrlLib \<Rightarrow> string \<Rightarrow> string \<Rightarrow> string" where
  "simpleUrlResolve lib u baseUrl = urlLibResolver lib baseUrl u"

text \<open>
  The condition under which \<open>simpleUrlRelative\<close> returns \<open>to\<close> as it is: a component of
  \<open>to\<close> is present and differs from that of \<open>from\<close>.
\<close>

definition conflicting :: "ParsedUrl \<Rightarrow> ParsedUrl \<Rightarrow> bool" where
  "conflicting fromUrl toUrl =
     (url_protocol toUrl \<noteq> None \<and> url_protocol fromUrl \<noteq> url_protocol toUrl \<or>
      url_slashes toUrl \<noteq> None \<and> url_slashes fromUrl \<noteq> url_slashes toUrl \<or>
      url_host toUrl \<noteq> None \<and> url_host fromUrl \<noteq> url_host toUrl \<or>
      url_auth toUrl \<noteq> None \<and> url_auth fromUrl \<noteq> url_auth toUrl)"

text \<open>\<open>replace(/[^/]+$/, '')\<close> and \<open>replace(/_$/, '')\<close>.\<close>

definition strip_last_segment :: "string \<Rightarrow> string" where
  "strip_last_segment s = rev (dropWhile (\<lambda>c. c \<noteq> CHR ''/'') (rev s))"

definition strip_underscore :: "string \<Rightarrow> string" where
  "strip_underscore s = (if s \<noteq> [] \<and> last s = CHR ''_'' then butlast s else s)"

text \<open>\<open>simpleUrlRelative\<close>.\<close>

definition simpleUrlRelative :: "UrlLib \<Rightarrow> string \<Rightarrow> string \<Rightarrow> string" where
  "simpleUrlRelative lib from to =
     (let fromUrl = core_parseUrl lib from;
          toUrl = core_parseUrl lib to
      in if conflicting fromUrl toUrl then to
         else
           (let new_pathname =
                  (if url_pathname fromUrl = url_pathname toUrl then []
                   else
                     (let fromDir = (case url_pathname fromUrl of
                                       Some p \<Rightarrow> strip_last_segment p | None \<Rightarrow> []);
                          toDir = (case url_pathname toUrl of Some p \<Rightarrow> p | None \<Rightarrow> [])
                      in strip_underscore (posix_relative lib fromDir (toDir @ ''_''))))
            in urlLibFormat lib
                 \<lparr>obj_pathname = new_pathname, obj_search = url_search toUrl,
                  obj_hash = url_hash toUrl\<rparr>))"

text \<open>
  The values of the library functions on the URLs \<open>http://h/a?x=1\<close> and \<open>http://h/a\<close>:
  what \<open>url.parse\<close> gives for them, \<open>url.format\<close> as the concatenation of path name,
  search and hash, which it is for an object with no other field (search and hash start
  with \<open>?\<close> and \<open>#\<close>), and \<open>url.resolve\<close> of the empty reference, which is the base
  without its hash. On other arguments this table says nothing (it gives the empty
  string).
\<close>

definition example_url_lib :: UrlLib where
  "example_url_lib =
     \<lparr>core_parseUrl =
        (\<lambda>u. \<lparr>url_protocol = (if u \<in> set [''http://h/a?x=1'', ''http://h/a'']
                                 then Some ''http:'' else None),
               url_slashes = (if u \<in> set [''http://h/a?x=1'', ''http://h/a'']
                                then Some True else None),
               url_host = (if u \<in> set [''http://h/a?x=1'', ''http://h/a'']
                             then Some ''h'' else None),
               url_auth = None,
               url_pathname = (if u \<in> set [''http://h/a?x=1'', ''http://h/a'']
                                 then Some ''/a'' else None),
               url_search = (if u = ''http://h/a?x=1'' then Some ''?x=1'' else None),
               url_hash = None\<rparr>),
      urlLibFormat =
        (\<lambda>ob. obj_pathname ob @ (case obj_search ob of None \<Rightarrow> [] | Some s \<Rightarrow> s) @
                (case obj_hash ob of None \<Rightarrow> [] | Some s \<Rightarrow> s)),
      urlLibResolver =
        (\<lambda>base u. if u = [] \<and> base \<in> set [''http://h/a?x=1'', ''http://h/a''] then base
                   else []),
      posix_relative = (\<lambda>a b. [])\<rparr>"

text \<open>
  C5: the claim says that \<open>resolve(relative(from, to), from)\<close> is \<open>to\<close> for two URLs of
  the same scheme and host. When the two URLs have the same path name, the relative URL
  is made of the search and the hash of \<open>to\<close> alone; when \<open>to\<close> has neither, it is the
  empty reference, and wherever the library resolves the empty reference to the base
  itself, the round trip gives \<open>from\<close>, not \<open>to\<close>: so it does for
  \<open>from = http://h/a?x=1\<close> and \<open>to = http://h/a\<close>.
\<close>

theorem relative_of_same_path_resolves_to_from:
  "\<not> conflicting (core_parseUrl lib from) (core_parseUrl lib to) \<and>
   url_pathname (core_parseUrl lib from) = url_pathname (core_parseUrl lib to) \<and>
   url_search (core_parseUrl lib to) = None \<and> url_hash (core_parseUrl lib to) = None \<and>
   urlLibFormat lib \<lparr>obj_pathname = [], obj_search = None, obj_hash = None\<rparr> = [] \<and>
   urlLibResolver lib from [] = from \<longrightarrow>
     simpleUrlRelative lib from to = [] \<and>
     simpleUrlResolve lib (simpleUrlRelative lib from to) from = from"
  by (simp add: simpleUrlRelative_def simpleUrlResolve_def Let_def)

theorem relative_of_same_path_resolves_to_from_witness:
  "simpleUrlRelative example_url_lib ''http://h/a?x=1'' ''http://h/a'' = [] \<and>
   simpleUrlResolve example_url_lib
     (simpleUrlRelative example_url_lib ''http://h/a?x=1'' ''http://h/a'') ''http://h/a?x=1'' =
     ''http://h/a?x=1'' \<and>
   ''http://h/a?x=1'' \<noteq> ''http://h/a'' \<and>
   url_protocol (core_parseUrl example_url_lib ''http://h/a?x=1'') =
     url_protocol (core_parseUrl example_url_lib ''http://h/a'') \<and>
   url_host (core_parseUrl example_url_lib ''http://h/a?x=1'') =
     url_host (core_parseUrl example_url_lib ''http://h/a'')"
proof -
  have h: "\<not> conflicting (core_parseUrl example_url_lib ''http://h/a?x=1'')
               (core_parseUrl example_url_lib ''http://h/a'')"
    "url_pathname (core_parseUrl example_url_lib ''http://h/a?x=1'') =
       url_pathname (core_parseUrl example_url_lib ''http://h/a'')"
    "url_search (core_parseUrl example_url_lib ''http://h/a'') = None"
    "url_hash (core_parseUrl example_url_lib ''http://h/a'') = None"
    "urlLibFormat example_url_lib \<lparr>obj_pathname = [], obj_search = None, obj_hash = None\<rparr> = []"
    "urlLibResolver example_url_lib ''http://h/a?x=1'' [] = ''http://h/a?x=1''"
    by code_simp+
  have e: "''http://h/a?x=1'' \<noteq> ''http://h/a''"
    "url_protocol (core_parseUrl example_url_lib ''http://h/a?x=1'') =
     url_protocol (core_parseUrl example_url_lib ''http://h/a'')"
    "url_host (core_parseUrl example_url_lib ''http://h/a?x=1'') =
     url_host (core_parseUrl example_url_lib ''http://h/a'')"
    by code_simp+
  from relative_of_same_path_resolves_to_from[of example_url_lib "''http://h/a?x=1''"
      "''http://h/a''"] h
  have "simpleUrlRelative example_url_lib ''http://h/a?x=1'' ''http://h/a'' = [] \<and>
     simpleUrlResolve example_url_lib
       (simpleUrlRelative example_url_lib ''http://h/a?x=1'' ''http://h/a'') ''http://h/a?x=1'' =
     ''http://h/a?x=1''"
    by blast
  with e show ?thesis by blast
qed

end
